theory Spec2Isabelle
  imports Complex_Main "HOL-Library.Multiset" "HOL-Library.Log_Nat" "HOL-Library.Sublist"
begin

section \<open>JavaScript values\<close>

text \<open>
  The script computes with JavaScript numbers, the values of IEEE binary64. A finite
  number is modelled as the real it denotes (the two zeros are one value), the infinities
  are values of their own, and so are the two values that JavaScript produces where no
  number exists: \<open>Undefined\<close> is what an array read outside the array yields, \<open>NaN\<close> is
  what arithmetic yields on \<open>undefined\<close>, on \<open>NaN\<close> and on undefined forms of the
  infinities.
\<close>

datatype jsval = Num real | PosInf | NegInf | NaN | Undefined

datatype error = TypeError | ExternalFailure

text \<open>
  Each arithmetic operation computes the exact result and rounds it once. The rounding is
  a parameter of the arithmetic: it maps the exact result to the value the operation
  returns.
\<close>

type_synonym rounding = "real \<Rightarrow> jsval"

text \<open>A finite number; a number (finite or infinite), as opposed to \<open>NaN\<close> and \<open>undefined\<close>.\<close>

definition isNum :: "jsval \<Rightarrow> bool" where
  "isNum v = (case v of Num x \<Rightarrow> True | _ \<Rightarrow> False)"

definition isNumber :: "jsval \<Rightarrow> bool" where
  "isNumber v = (case v of Num x \<Rightarrow> True | PosInf \<Rightarrow> True | NegInf \<Rightarrow> True | _ \<Rightarrow> False)"

text \<open>A number that is not below zero.\<close>

definition nonNegative :: "jsval \<Rightarrow> bool" where
  "nonNegative v = (case v of Num x \<Rightarrow> 0 \<le> x | PosInf \<Rightarrow> True | _ \<Rightarrow> False)"

text \<open>\<open>xs[i]\<close> on an array: the element, or \<open>undefined\<close> outside the array.\<close>

definition index :: "'a list \<Rightarrow> int \<Rightarrow> 'a option" where
  "index xs i = (if 0 \<le> i \<and> i < int (length xs) then Some (xs ! nat i) else None)"

definition elem :: "real list \<Rightarrow> int \<Rightarrow> jsval" where
  "elem xs i = (case index xs i of Some x \<Rightarrow> Num x | None \<Rightarrow> Undefined)"

text \<open>The sign of a number, and its negation (exact in binary64).\<close>

definition signOf :: "jsval \<Rightarrow> real" where
  "signOf a = (case a of Num x \<Rightarrow> sgn x | PosInf \<Rightarrow> 1 | NegInf \<Rightarrow> - 1 | _ \<Rightarrow> 0)"

definition jsNeg :: "jsval \<Rightarrow> jsval" where
  "jsNeg a = (case a of Num x \<Rightarrow> Num (- x) | PosInf \<Rightarrow> NegInf | NegInf \<Rightarrow> PosInf | _ \<Rightarrow> NaN)"

text \<open>
  \<open>a + b\<close>: the rounded sum of two finite numbers; an infinity absorbs a finite number and
  itself, and the sum of the two opposite infinities is \<open>NaN\<close>.
\<close>

definition jsAdd :: "rounding \<Rightarrow> jsval \<Rightarrow> jsval \<Rightarrow> jsval" where
  "jsAdd rnd a b =
     (if \<not> isNumber a \<or> \<not> isNumber b then NaN
      else (case a of
              Num x \<Rightarrow> (case b of Num y \<Rightarrow> rnd (x + y) | _ \<Rightarrow> b)
            | _ \<Rightarrow> (case b of Num y \<Rightarrow> a | _ \<Rightarrow> if a = b then a else NaN)))"

text \<open>\<open>a - b\<close>.\<close>

definition jsSub :: "rounding \<Rightarrow> jsval \<Rightarrow> jsval \<Rightarrow> jsval" where
  "jsSub rnd a b = jsAdd rnd a (jsNeg b)"

text \<open>
  \<open>a * b\<close>: the rounded product of two finite numbers; with an infinity the product is
  the infinity of the product of the signs, and \<open>NaN\<close> when the other factor is zero.
\<close>

definition jsMul :: "rounding \<Rightarrow> jsval \<Rightarrow> jsval \<Rightarrow> jsval" where
  "jsMul rnd a b =
     (if \<not> isNumber a \<or> \<not> isNumber b then NaN
      else (case (a, b) of
              (Num x, Num y) \<Rightarrow> rnd (x * y)
            | _ \<Rightarrow> (let s = signOf a * signOf b
                    in if s = 0 then NaN else if 0 < s then PosInf else NegInf)))"

text \<open>\<open>a / n\<close> for a count \<open>n\<close>: the length of an array, or the literal 2.\<close>

definition jsDivBy :: "rounding \<Rightarrow> jsval \<Rightarrow> nat \<Rightarrow> jsval" where
  "jsDivBy rnd a n =
     (case a of
        Num x \<Rightarrow>
          (if n = 0 then (if x = 0 then NaN else if 0 < x then PosInf else NegInf)
           else rnd (x / real n))
      | PosInf \<Rightarrow> PosInf
      | NegInf \<Rightarrow> NegInf
      | _ \<Rightarrow> NaN)"

text \<open>
  \<open>Math.sqrt\<close>: not a number below zero; on a finite number the rounded square root, as
  the correctly rounded operation of IEEE 754 gives it.
\<close>

definition jsSqrt :: "rounding \<Rightarrow> jsval \<Rightarrow> jsval" where
  "jsSqrt rnd a =
     (case a of
        Num x \<Rightarrow> (if x < 0 then NaN else rnd (sqrt x))
      | PosInf \<Rightarrow> PosInf
      | _ \<Rightarrow> NaN)"

text \<open>\<open>a <= b\<close> on JavaScript values: false as soon as one side is not a number.\<close>

definition jsLe :: "jsval \<Rightarrow> jsval \<Rightarrow> bool" where
  "jsLe a b =
     (isNumber a \<and> isNumber b \<and>
      (case a of
         Num x \<Rightarrow> (case b of Num y \<Rightarrow> x \<le> y | PosInf \<Rightarrow> True | _ \<Rightarrow> False)
       | NegInf \<Rightarrow> True
       | _ \<Rightarrow> b = PosInf))"

section \<open>The arithmetic of the machine\<close>

text \<open>Arithmetic on the reals, without rounding: the arithmetic of the mathematics.\<close>

definition exact :: rounding where
  "exact x = Num x"

text \<open>
  IEEE binary64, the arithmetic of the script. A finite binary64 number has 53 significant
  bits and an exponent between -1022 and 1023: a number in the binade of \<open>2 ^ k\<close> is a
  multiple of \<open>2 ^ (k - 52)\<close>, and below \<open>2 ^ -1022\<close> the subnormal numbers are the
  multiples of \<open>2 ^ -1074\<close>. \<open>binary64\<close> rounds a real to the nearest such multiple, ties
  to the even significand; \<open>double\<close> is the rounding of the machine, which returns an
  infinity when the rounded magnitude reaches \<open>2 ^ 1024\<close>.
\<close>

definition ilog2 :: "real \<Rightarrow> int" where
  "ilog2 x = (if 1 \<le> x then bitlen \<lfloor>x\<rfloor> - 1 else - bitlen (\<lceil>1 / x\<rceil> - 1))"

definition roundHalfEven :: "real \<Rightarrow> int" where
  "roundHalfEven y =
     (let f = \<lfloor>y\<rfloor>; d = y - of_int f
      in if d < 1 / 2 then f else if 1 / 2 < d then f + 1 else if even f then f else f + 1)"

definition ulpExponent :: "real \<Rightarrow> int" where
  "ulpExponent x = max (ilog2 \<bar>x\<bar> - 52) (- 1074)"

definition binary64 :: "real \<Rightarrow> real" where
  "binary64 x =
     (if x = 0 then 0
      else of_int (roundHalfEven (x / 2 powi ulpExponent x)) * 2 powi ulpExponent x)"

definition overflowThreshold :: real where
  "overflowThreshold = 2 ^ 1024"

definition double :: rounding where
  "double x =
     (let v = binary64 x
      in if overflowThreshold \<le> v then PosInf
         else if v \<le> - overflowThreshold then NegInf
         else Num v)"

text \<open>
  The unit roundoff of binary64, \<open>2 ^ -53\<close>: the largest relative error of one rounding
  between \<open>2 ^ -1022\<close> and \<open>2 ^ 1024\<close>. A value \<open>x\<close> is within \<open>k\<close> roundings of
  a quantity \<open>a\<close> that is not below zero when it lies between \<open>a (1 - 2 ^ -53) ^ k\<close> and
  \<open>a (1 + 2 ^ -53) ^ k\<close>. A number is moderate when it is zero or of a magnitude between
  \<open>2 ^ -500\<close> and \<open>2 ^ 500\<close>: sums and products of a few moderate numbers stay clear of
  both ends of the range of binary64.
\<close>

definition unitRoundoff :: real where
  "unitRoundoff = 1 / 2 ^ 53"

definition nearBy :: "nat \<Rightarrow> real \<Rightarrow> real \<Rightarrow> bool" where
  "nearBy k a x = (a * (1 - unitRoundoff) ^ k \<le> x \<and> x \<le> a * (1 + unitRoundoff) ^ k)"

definition moderate :: "real \<Rightarrow> bool" where
  "moderate d = ((d = 0 \<or> 2 powi (- 500) \<le> \<bar>d\<bar>) \<and> \<bar>d\<bar> \<le> 2 ^ 500)"

text \<open>The binary64 number nearest to 0.1, the value of the literal \<open>0.1\<close>.\<close>

definition tenth :: real where
  "tenth = 3602879701896397 / 36028797018963968"

section \<open>Detections and the delta calculator\<close>

text \<open>
  A detection as \<open>detectAprilTags\<close> returns it: \<open>{ id, corners }\<close>, the corners an array
  of arrays of finite numbers. The field \<open>id\<close> is named \<open>id_tag\<close> here.
\<close>

record detection =
  id_tag :: int
  corners :: "real list list"

text \<open>A coordinate read \<open>corner[k]\<close>.\<close>

definition coord :: "real list \<Rightarrow> int \<Rightarrow> jsval" where
  "coord corner k = elem corner k"

text \<open>
  \<open>calculateCornerDistance(corner1, corner2)\<close>, in the arithmetic given by the rounding.
  The arguments are the results of \<open>tag.corners[i]\<close>, so either may be \<open>undefined\<close>
  (\<open>None\<close>), and reading \<open>[0]\<close> of \<open>undefined\<close> raises a TypeError. A coordinate read
  outside a corner raises nothing: it yields \<open>undefined\<close>, and the distance becomes
  \<open>NaN\<close>.
\<close>

definition calculateCornerDistance :: "rounding \<Rightarrow> real list option \<Rightarrow> real list option \<Rightarrow> error + jsval" where
  "calculateCornerDistance rnd corner1 corner2 =
     (case corner1 of
        None \<Rightarrow> Inl TypeError
      | Some c1 \<Rightarrow>
          (case corner2 of
             None \<Rightarrow> Inl TypeError
           | Some c2 \<Rightarrow>
               (let dx = jsSub rnd (coord c1 0) (coord c2 0);
                    dy = jsSub rnd (coord c1 1) (coord c2 1)
                in Inr (jsSqrt rnd (jsAdd rnd (jsMul rnd dx dx) (jsMul rnd dy dy))))))"

text \<open>The inner loop of \<open>calculateDeltas\<close>: \<open>for (let i = 0; i < 4; i++)\<close>.\<close>

function cornerLoop :: "rounding \<Rightarrow> detection \<Rightarrow> detection \<Rightarrow> nat \<Rightarrow> jsval list \<Rightarrow> error + jsval list" where
  "cornerLoop rnd gtTag detTag i deltas =
     (if i < 4 then
        (case calculateCornerDistance rnd (index (corners gtTag) (int i)) (index (corners detTag) (int i)) of
           Inl e \<Rightarrow> Inl e
         | Inr delta \<Rightarrow> cornerLoop rnd gtTag detTag (i + 1) (deltas @ [delta]))
      else Inr deltas)"
  by pat_completeness auto
termination
  by (relation "measure (\<lambda>(rnd, gtTag, detTag, i, deltas). 4 - i)") auto

declare cornerLoop.simps [simp del]

text \<open>
  The outer loop, \<open>for (const gtTag of groundTruth)\<close>; \<open>detection.find\<close> returns the
  first detection with the identifier, or \<open>undefined\<close>.
\<close>

fun tagLoop :: "rounding \<Rightarrow> detection list \<Rightarrow> detection list \<Rightarrow> jsval list \<Rightarrow> error + jsval list" where
  "tagLoop rnd [] detection deltas = Inr deltas"
| "tagLoop rnd (gtTag # rest) detection deltas =
     (case find (\<lambda>d. id_tag d = id_tag gtTag) detection of
        None \<Rightarrow> tagLoop rnd rest detection deltas
      | Some detTag \<Rightarrow>
          (case cornerLoop rnd gtTag detTag 0 deltas of
             Inl e \<Rightarrow> Inl e
           | Inr deltas' \<Rightarrow> tagLoop rnd rest detection deltas'))"

definition calculateDeltas :: "rounding \<Rightarrow> detection list \<Rightarrow> detection list \<Rightarrow> error + jsval list" where
  "calculateDeltas rnd groundTruth detection = tagLoop rnd groundTruth detection []"

section \<open>The statistics aggregator\<close>

text \<open>
  The object \<open>{ min, mean, median, max }\<close>; \<open>min\<close> and \<open>max\<close> are named \<open>min_stat\<close>
  and \<open>max_stat\<close> here.
\<close>

record stats =
  min_stat :: jsval
  mean :: jsval
  median :: jsval
  max_stat :: jsval

text \<open>
  \<open>calculateStats(deltas)\<close> on an array of finite numbers, in the arithmetic given by the
  rounding. \<open>deltas.sort\<close> sorts the caller's array in place and returns that same array,
  so the function hands back the array next to the statistics, and \<open>deltas.reduce\<close> runs
  over the sorted array, from the initial value 0. With the comparator \<open>a - b\<close> on finite
  numbers the sorted array is the ascending permutation.
\<close>

definition calculateStats :: "rounding \<Rightarrow> real list \<Rightarrow> stats \<times> real list" where
  "calculateStats rnd deltas =
     (if length deltas = 0
      then (\<lparr>min_stat = Num 0, mean = Num 0, median = Num 0, max_stat = Num 0\<rparr>, deltas)
      else
        (let sorted_d = sort deltas;
             n = int (length sorted_d);
             mn = elem sorted_d 0;
             mx = elem sorted_d (n - 1);
             mean_d = jsDivBy rnd (foldl (\<lambda>sum val. jsAdd rnd sum (Num val)) (Num 0) sorted_d)
                        (length sorted_d);
             median_d =
               (if n mod 2 = 0
                then jsDivBy rnd (jsAdd rnd (elem sorted_d (n div 2 - 1)) (elem sorted_d (n div 2))) 2
                else elem sorted_d (n div 2))
         in (\<lparr>min_stat = mn, mean = mean_d, median = median_d, max_stat = mx\<rparr>, sorted_d)))"

section \<open>The statistics and the delta list in the words of the specification\<close>

text \<open>
  The median on the list sorted ascending: for odd length the middle element, for even
  length the arithmetic mean of the two middle elements. \<open>middle_real\<close> is the median of
  the mathematics; \<open>middle_of\<close> takes the mean of the two middle elements in the
  arithmetic given by the rounding, their sum divided by 2.
\<close>

definition middle_real :: "real list \<Rightarrow> real" where
  "middle_real s =
     (if odd (length s) then s ! (length s div 2)
      else (s ! (length s div 2 - 1) + s ! (length s div 2)) / 2)"

definition middle_of :: "rounding \<Rightarrow> real list \<Rightarrow> jsval" where
  "middle_of rnd s =
     (if odd (length s) then Num (s ! (length s div 2))
      else jsDivBy rnd (jsAdd rnd (Num (s ! (length s div 2 - 1))) (Num (s ! (length s div 2)))) 2)"

text \<open>
  The Euclidean distance of two points given as coordinate pairs: in the mathematics, and
  as the formula \<open>sqrt (dx * dx + dy * dy)\<close> evaluated in the arithmetic given by the
  rounding.
\<close>

definition euclid :: "real list \<Rightarrow> real list \<Rightarrow> real" where
  "euclid p q = sqrt ((p ! 0 - q ! 0)\<^sup>2 + (p ! 1 - q ! 1)\<^sup>2)"

definition distance :: "rounding \<Rightarrow> real list \<Rightarrow> real list \<Rightarrow> jsval" where
  "distance rnd p q =
     (let dx = jsSub rnd (Num (p ! 0)) (Num (q ! 0));
          dy = jsSub rnd (Num (p ! 1)) (Num (q ! 1))
      in jsSqrt rnd (jsAdd rnd (jsMul rnd dx dx) (jsMul rnd dy dy)))"

text \<open>The four distances of corresponding corners of two detections, in corner order.\<close>

definition pairDeltas :: "rounding \<Rightarrow> detection \<Rightarrow> detection \<Rightarrow> jsval list" where
  "pairDeltas rnd g m = map (\<lambda>i. distance rnd (corners g ! i) (corners m ! i)) [0, 1, 2, 3]"

definition euclidDeltas :: "detection \<Rightarrow> detection \<Rightarrow> jsval list" where
  "euclidDeltas g m = map (\<lambda>i. Num (euclid (corners g ! i) (corners m ! i))) [0, 1, 2, 3]"

definition ids :: "detection list \<Rightarrow> int set" where
  "ids ds = id_tag ` set ds"

text \<open>A detection with exactly 4 corners, each a pair of coordinates.\<close>

definition wellFormed :: "detection \<Rightarrow> bool" where
  "wellFormed d = (length (corners d) = 4 \<and> list_all (\<lambda>c. length c = 2) (corners d))"

text \<open>
  The reference markers whose identifier is also in the comparison set, in reference order.
\<close>

definition common :: "detection list \<Rightarrow> detection list \<Rightarrow> detection list" where
  "common gt det = filter (\<lambda>g. id_tag g \<in> ids det) gt"

text \<open>
  What the loops of \<open>calculateDeltas\<close> add up to on well-formed detections: for each
  reference marker in turn, nothing without a match and the four distances with one.
\<close>

definition expected :: "rounding \<Rightarrow> detection list \<Rightarrow> detection list \<Rightarrow> jsval list" where
  "expected rnd gt det =
     concat (map (\<lambda>g. case find (\<lambda>d. id_tag d = id_tag g) det of
                          None \<Rightarrow> []
                        | Some m \<Rightarrow> pairDeltas rnd g m) gt)"

text \<open>Detections of the scenarios of the specification, and two malformed ones.\<close>

definition tag1 :: detection where
  "tag1 = \<lparr>id_tag = 1, corners = [[0, 0], [1, 0], [1, 1], [0, 1]]\<rparr>"

definition tag1_moved :: detection where
  "tag1_moved = \<lparr>id_tag = 1, corners = [[0, 0], [1, 0], [1, 1], [0, 2]]\<rparr>"

definition tag2 :: detection where
  "tag2 = \<lparr>id_tag = 2, corners = [[5, 5], [6, 5], [6, 6], [5, 6]]\<rparr>"

definition tag1_three_corners :: detection where
  "tag1_three_corners = \<lparr>id_tag = 1, corners = [[0, 0], [1, 0], [1, 1]]\<rparr>"

definition tag1_short_corner :: detection where
  "tag1_short_corner = \<lparr>id_tag = 1, corners = [[0, 0], [1, 0], [1, 1], [0]]\<rparr>"

section \<open>The analysis driver\<close>

text \<open>
  The script of \<open>src/unnamed/part_001\<close>; \<open>src/analyze-quality.js\<close> is the same script
  without the scatter records, the table file and the plot. What the script does to the
  world is recorded as a trace of events; what the world answers is an oracle per
  operation, indexed by the quality level and the file of the iteration that calls it.
  Console output is not recorded, the summary table and \<open>console.error\<close> apart.
\<close>

text \<open>
  The quality levels \<open>0.1\<close> to \<open>0.9\<close>. The script passes them on and compares them
  with each other, and computes nothing from them; each is named here by the decimal
  fraction of its literal.
\<close>

definition QUALITY_VALUES :: "real list" where
  "QUALITY_VALUES = [1 / 10, 2 / 10, 3 / 10, 4 / 10, 5 / 10, 6 / 10, 7 / 10, 8 / 10, 9 / 10]"

text \<open>One row of \<open>results\<close>: \<open>{ quality, ...stats, missingMarkers }\<close>.\<close>

record result =
  quality :: real
  stats_of :: "stats option"
  missingMarkers_of :: nat

text \<open>One entry of \<open>scatterData\<close>; its fields \<open>quality\<close> and \<open>image\<close> are named
  \<open>quality_sc\<close> and \<open>image_sc\<close> here.\<close>

record scatter =
  quality_sc :: real
  meanDelta :: jsval
  minDelta :: jsval
  maxDelta :: jsval
  image_sc :: string

datatype event =
    CreateDetector
  | MakeTempDir
  | ReadDir string
  | ConvertPNG real string
  | DetectPNG real string
  | ConvertJPEG real string
  | DetectJPEG real string
  | UnlinkPNG real string
  | UnlinkJPEG real string
  | PrintTable "result list"
  | SaveTable "result list"
  | RemoveTempDir
  | ScatterPlot "scatter list"
  | ErrorLog

text \<open>
  The answers of the world: \<open>parseInt\<close> (\<open>None\<close> for \<open>NaN\<close>), and for each external
  operation whether it succeeds and what it returns. A failing operation raises.
\<close>

record world =
  parseInt :: "string \<Rightarrow> int option"
  createTempDir_ok :: bool
  readdir :: "string \<Rightarrow> string list option"
  convertARWToPNG_ok :: "real \<Rightarrow> string \<Rightarrow> bool"
  detectPNG :: "real \<Rightarrow> string \<Rightarrow> detection list option"
  convertARWToJPEG_ok :: "real \<Rightarrow> string \<Rightarrow> bool"
  detectJPEG :: "real \<Rightarrow> string \<Rightarrow> detection list option"
  unlinkPNG_ok :: "real \<Rightarrow> string \<Rightarrow> bool"
  unlinkJPEG_ok :: "real \<Rightarrow> string \<Rightarrow> bool"
  saveTableToFile_ok :: bool
  rmdir_ok :: bool
  createScatterPlot_ok :: bool

text \<open>
  A step of the script inside the \<open>try\<close> block: the events it caused, and the exception
  it raised or the value it returned.
\<close>

type_synonym 'a step = "event list \<times> (error + 'a)"

definition ret :: "'a \<Rightarrow> 'a step" where
  "ret x = ([], Inr x)"

definition effect :: "event \<Rightarrow> bool \<Rightarrow> unit step" where
  "effect e ok = ([e], if ok then Inr () else Inl ExternalFailure)"

definition effectGet :: "event \<Rightarrow> 'a option \<Rightarrow> 'a step" where
  "effectGet e r = ([e], case r of None \<Rightarrow> Inl ExternalFailure | Some x \<Rightarrow> Inr x)"

definition lift :: "error + 'a \<Rightarrow> 'a step" where
  "lift r = ([], r)"

definition andThen :: "'a step \<Rightarrow> ('a \<Rightarrow> 'b step) \<Rightarrow> 'b step" where
  "andThen m f =
     (case m of
        (ev, Inl e) \<Rightarrow> (ev, Inl e)
      | (ev, Inr x) \<Rightarrow> (case f x of (ev', r) \<Rightarrow> (ev @ ev', r)))"

text \<open>
  The count of missing markers: \<open>groundTruth.filter((gt) => !detectedIds.has(gt.id)).length\<close>
  with \<open>detectedIds = new Set(detection.map((d) => d.id))\<close>.
\<close>

definition missingMarkers :: "detection list \<Rightarrow> detection list \<Rightarrow> nat" where
  "missingMarkers groundTruth detection =
     (let detectedIds = set (map id_tag detection)
      in length (filter (\<lambda>gt. id_tag gt \<notin> detectedIds) groundTruth))"

text \<open>
  The corner dump of \<open>--corners\<close>: only console output, but \<open>c[0].toFixed(2)\<close> and
  \<open>c[1].toFixed(2)\<close> raise a TypeError on a corner with fewer than two coordinates.
\<close>

definition printCornersOf :: "detection list \<Rightarrow> unit step" where
  "printCornersOf tags =
     (if list_all (\<lambda>tag. list_all (\<lambda>c. 2 \<le> length c) (corners tag)) tags
      then ret () else lift (Inl TypeError))"

text \<open>\<open>Math.min(...deltas)\<close> and \<open>Math.max(...deltas)\<close> on a non-empty array.\<close>

definition jsMin :: "jsval \<Rightarrow> jsval \<Rightarrow> jsval" where
  "jsMin a b = (if \<not> isNumber a \<or> \<not> isNumber b then NaN else if jsLe a b then a else b)"

definition jsMax :: "jsval \<Rightarrow> jsval \<Rightarrow> jsval" where
  "jsMax a b = (if \<not> isNumber a \<or> \<not> isNumber b then NaN else if jsLe a b then b else a)"

definition toNumber :: "jsval \<Rightarrow> jsval" where
  "toNumber a = (if isNumber a then a else NaN)"

text \<open>The scatter record of one image, pushed \<open>if (deltas.length > 0)\<close>.\<close>

definition scatterOf :: "real \<Rightarrow> string \<Rightarrow> jsval list \<Rightarrow> scatter list" where
  "scatterOf q arwFile deltas =
     (case deltas of
        [] \<Rightarrow> []
      | d # ds \<Rightarrow>
          [\<lparr>quality_sc = q,
            meanDelta = jsDivBy double (foldl (jsAdd double) (Num 0) deltas) (length deltas),
            minDelta = foldl jsMin (toNumber d) ds,
            maxDelta = foldl jsMax (toNumber d) ds,
            image_sc = arwFile\<rparr>])"

text \<open>
  \<open>calculateStats(allDeltas)\<close> in the driver, in binary64 arithmetic. The pooled deltas
  are finite numbers unless a corner lacked a coordinate (\<open>NaN\<close>) or a distance
  overflowed. With a \<open>NaN\<close> in the pool the comparator of the sort is not consistent and
  the language leaves the sorted order, and with it the minimum, the median and the
  maximum, to the implementation; the statistics of a pool that is not a list of finite
  numbers are not determined here: \<open>None\<close>.
\<close>

definition numbers :: "jsval list \<Rightarrow> real list option" where
  "numbers vs = (if list_all isNum vs then Some (map (\<lambda>v. case v of Num x \<Rightarrow> x | _ \<Rightarrow> 0) vs) else None)"

definition statsOfPool :: "jsval list \<Rightarrow> stats option" where
  "statsOfPool allDeltas = map_option (\<lambda>ds. fst (calculateStats double ds)) (numbers allDeltas)"

text \<open>The variables of one quality level's loop over the files.\<close>

record loopState =
  allDeltas :: "jsval list"
  totalMissingMarkers :: nat
  scatterData :: "scatter list"

text \<open>The body of \<open>for (const arwFile of arwFiles)\<close>.\<close>

definition processFile :: "world \<Rightarrow> bool \<Rightarrow> bool \<Rightarrow> real \<Rightarrow> string \<Rightarrow> loopState \<Rightarrow> loopState step" where
  "processFile w preserveFiles printCorners q arwFile st =
     andThen (effect (ConvertPNG q arwFile) (convertARWToPNG_ok w q arwFile)) (\<lambda>_.
     andThen (effectGet (DetectPNG q arwFile) (detectPNG w q arwFile)) (\<lambda>groundTruth.
     andThen (if printCorners \<and> q = QUALITY_VALUES ! 0 then printCornersOf groundTruth else ret ()) (\<lambda>_.
     andThen (effect (ConvertJPEG q arwFile) (convertARWToJPEG_ok w q arwFile)) (\<lambda>_.
     andThen (effectGet (DetectJPEG q arwFile) (detectJPEG w q arwFile)) (\<lambda>detection.
     andThen (if printCorners then printCornersOf detection else ret ()) (\<lambda>_.
     andThen (lift (calculateDeltas double groundTruth detection)) (\<lambda>deltas.
     andThen (if \<not> preserveFiles
              then andThen (effect (UnlinkPNG q arwFile) (unlinkPNG_ok w q arwFile)) (\<lambda>_.
                   effect (UnlinkJPEG q arwFile) (unlinkJPEG_ok w q arwFile))
              else ret ()) (\<lambda>_.
     ret \<lparr>allDeltas = allDeltas st @ deltas,
          totalMissingMarkers = totalMissingMarkers st + missingMarkers groundTruth detection,
          scatterData = scatterData st @ scatterOf q arwFile deltas\<rparr>))))))))"

fun fileLoop :: "world \<Rightarrow> bool \<Rightarrow> bool \<Rightarrow> real \<Rightarrow> string list \<Rightarrow> loopState \<Rightarrow> loopState step" where
  "fileLoop w preserveFiles printCorners q [] st = ret st"
| "fileLoop w preserveFiles printCorners q (arwFile # rest) st =
     andThen (processFile w preserveFiles printCorners q arwFile st)
       (fileLoop w preserveFiles printCorners q rest)"

text \<open>The loop \<open>for (const quality of QUALITY_VALUES)\<close>, on \<open>results\<close> and \<open>scatterData\<close>.\<close>

fun qualityLoop :: "world \<Rightarrow> bool \<Rightarrow> bool \<Rightarrow> string list \<Rightarrow> real list \<Rightarrow> result list \<times> scatter list
    \<Rightarrow> (result list \<times> scatter list) step" where
  "qualityLoop w preserveFiles printCorners arwFiles [] acc = ret acc"
| "qualityLoop w preserveFiles printCorners arwFiles (q # qs) acc =
     andThen (fileLoop w preserveFiles printCorners q arwFiles
                \<lparr>allDeltas = [], totalMissingMarkers = 0, scatterData = snd acc\<rparr>) (\<lambda>st.
     qualityLoop w preserveFiles printCorners arwFiles qs
       (fst acc @ [\<lparr>quality = q, stats_of = statsOfPool (allDeltas st),
                    missingMarkers_of = totalMissingMarkers st\<rparr>],
        scatterData st))"

text \<open>\<open>file.toLowerCase().endsWith(".arw")\<close>, on strings of ASCII characters.\<close>

definition toLowerCase :: "string \<Rightarrow> string" where
  "toLowerCase s =
     map (\<lambda>c. case map_of (zip ''ABCDEFGHIJKLMNOPQRSTUVWXYZ'' ''abcdefghijklmnopqrstuvwxyz'') c of
                 Some l \<Rightarrow> l
               | None \<Rightarrow> c) s"

definition endsWith :: "string \<Rightarrow> string \<Rightarrow> bool" where
  "endsWith s t = (length t \<le> length s \<and> drop (length s - length t) s = t)"

definition startsWith :: "string \<Rightarrow> string \<Rightarrow> bool" where
  "startsWith s t = (take (length t) s = t)"

text \<open>
  The files the loops run over: the directory listing filtered by the extension, cut to
  the first \<open>subsetSize\<close> files when
  \<open>subsetSize && subsetSize > 0 && subsetSize < arwFiles.length\<close>.
\<close>

definition isArw :: "string \<Rightarrow> bool" where
  "isArw file = endsWith (toLowerCase file) ''.arw''"

definition selectFiles :: "int option \<Rightarrow> string list \<Rightarrow> string list" where
  "selectFiles subsetSize listing =
     (let arwFiles = filter isArw listing
      in case subsetSize of
           None \<Rightarrow> arwFiles
         | Some n \<Rightarrow>
             (if n \<noteq> 0 \<and> n > 0 \<and> n < int (length arwFiles) then take (nat n) arwFiles
              else arwFiles))"

text \<open>The \<open>try\<close> block of \<open>main\<close>.\<close>

definition mainBody :: "world \<Rightarrow> string \<Rightarrow> int option \<Rightarrow> bool \<Rightarrow> bool \<Rightarrow> bool \<Rightarrow> unit step" where
  "mainBody w rawDir subsetSize preserveFiles printCorners noPlot =
     andThen (effect MakeTempDir (createTempDir_ok w)) (\<lambda>_.
     andThen (effectGet (ReadDir rawDir) (readdir w rawDir)) (\<lambda>listing.
     andThen (qualityLoop w preserveFiles printCorners (selectFiles subsetSize listing)
                QUALITY_VALUES ([], [])) (\<lambda>acc.
     andThen (effect (PrintTable (fst acc)) True) (\<lambda>_.
     andThen (effect (SaveTable (fst acc)) (saveTableToFile_ok w)) (\<lambda>_.
     andThen (if \<not> preserveFiles then effect RemoveTempDir (rmdir_ok w) else ret ()) (\<lambda>_.
     if \<not> noPlot \<and> length (snd acc) > 0
     then effect (ScatterPlot (snd acc)) (createScatterPlot_ok w) else ret ()))))))"

text \<open>What a run leaves behind: the trace and the exit status of the process.\<close>

record outcome =
  trace :: "event list"
  exitCode :: nat

text \<open>\<open>main\<close>: the \<open>catch\<close> logs the error and calls \<open>process.exit(1)\<close>.\<close>

definition main :: "world \<Rightarrow> string \<Rightarrow> int option \<Rightarrow> bool \<Rightarrow> bool \<Rightarrow> bool \<Rightarrow> outcome" where
  "main w rawDir subsetSize preserveFiles printCorners noPlot =
     (case mainBody w rawDir subsetSize preserveFiles printCorners noPlot of
        (ev, Inl e) \<Rightarrow> \<lparr>trace = ev @ [ErrorLog], exitCode = 1\<rparr>
      | (ev, Inr _) \<Rightarrow> \<lparr>trace = ev, exitCode = 0\<rparr>)"

text \<open>
  The command line. \<open>args\<close> is \<open>process.argv.slice(2)\<close>, \<open>envRawDir\<close> is
  \<open>process.env.RAW_DIR\<close> after the \<open>.env.local\<close> file has been looked for.
\<close>

definition nonFlagArgs :: "string list \<Rightarrow> string list" where
  "nonFlagArgs args = filter (\<lambda>arg. \<not> startsWith arg ''-'') args"

definition subsetSizeOf :: "world \<Rightarrow> string list \<Rightarrow> int option" where
  "subsetSizeOf w args =
     (if length (nonFlagArgs args) > 0 \<and> parseInt w (nonFlagArgs args ! 0) \<noteq> None
      then parseInt w (nonFlagArgs args ! 0) else None)"

text \<open>\<open>rawDir\<close>; \<open>None\<close> is \<open>null\<close>. The empty string is falsy in \<open>||\<close>.\<close>

definition rawDirOf :: "string list \<Rightarrow> string option \<Rightarrow> string option" where
  "rawDirOf args envRawDir =
     (if length (nonFlagArgs args) > 1 then Some (nonFlagArgs args ! 1)
      else (case envRawDir of None \<Rightarrow> None | Some d \<Rightarrow> if d = [] then None else Some d))"

text \<open>
  The script from the argument parsing on: without a directory it logs two error lines
  and exits with status 1; otherwise it creates the detector and calls \<open>main\<close>.
\<close>

definition script :: "world \<Rightarrow> string list \<Rightarrow> string option \<Rightarrow> outcome" where
  "script w args envRawDir =
     (let subsetSize = subsetSizeOf w args;
          rawDir = rawDirOf args envRawDir;
          preserveFiles = (''--preserve'' \<in> set args \<or> ''-p'' \<in> set args);
          printCorners = (''--corners'' \<in> set args \<or> ''-c'' \<in> set args);
          noPlot = (''--no-plot'' \<in> set args)
      in case rawDir of
           None \<Rightarrow> \<lparr>trace = [ErrorLog, ErrorLog], exitCode = 1\<rparr>
         | Some d \<Rightarrow>
             (if d = [] then \<lparr>trace = [ErrorLog, ErrorLog], exitCode = 1\<rparr>
              else (let r = main w d subsetSize preserveFiles printCorners noPlot
                    in \<lparr>trace = CreateDetector # trace r, exitCode = exitCode r\<rparr>)))"

section \<open>Reading a trace\<close>

text \<open>
  An unlink event whose deletion the world refuses.
\<close>

definition failedUnlink :: "world \<Rightarrow> event \<Rightarrow> bool" where
  "failedUnlink w e =
     (case e of
        UnlinkPNG q f \<Rightarrow> \<not> unlinkPNG_ok w q f
      | UnlinkJPEG q f \<Rightarrow> \<not> unlinkJPEG_ok w q f
      | _ \<Rightarrow> False)"

text \<open>The events of the loops over the quality levels and the files.\<close>

definition isLoopEvent :: "event \<Rightarrow> bool" where
  "isLoopEvent e =
     (case e of
        ConvertPNG q f \<Rightarrow> True | DetectPNG q f \<Rightarrow> True | ConvertJPEG q f \<Rightarrow> True
      | DetectJPEG q f \<Rightarrow> True | UnlinkPNG q f \<Rightarrow> True | UnlinkJPEG q f \<Rightarrow> True
      | _ \<Rightarrow> False)"

text \<open>
  The files whose processing was started at quality level \<open>q\<close>, in the order of the
  trace: every pass of the loop over the files starts with the conversion to PNG.
\<close>

definition convertedAt :: "real \<Rightarrow> event list \<Rightarrow> string list" where
  "convertedAt q tr =
     concat (map (\<lambda>e. case e of ConvertPNG q' f \<Rightarrow> if q' = q then [f] else [] | _ \<Rightarrow> []) tr)"

definition afterConvert :: "event \<Rightarrow> bool" where
  "afterConvert e = (\<forall>q f. e \<noteq> ConvertPNG q f)"

text \<open>
  A step stops at a failed unlink: when it returns, no unlink of its trace has failed, and
  when it raises, none before the last event has.
\<close>

definition stopsAtFailedUnlink :: "world \<Rightarrow> 'a step \<Rightarrow> bool" where
  "stopsAtFailedUnlink w s =
     list_all (\<lambda>e. \<not> failedUnlink w e) (if isl (snd s) then butlast (fst s) else fst s)"

definition eventsAll :: "(event \<Rightarrow> bool) \<Rightarrow> 'a step \<Rightarrow> bool" where
  "eventsAll P s = list_all P (fst s)"

section \<open>Example worlds\<close>

text \<open>
  A directory with two RAW files and a text file, a reference detection of markers 1 and
  2 and a comparison detection of marker 1 with one corner moved; every operation
  succeeds. In the second world no PNG can be deleted.
\<close>

definition world_plain :: world where
  "world_plain =
     \<lparr>parseInt = (\<lambda>s. if s = ''1'' then Some 1 else if s = ''2'' then Some 2 else None),
      createTempDir_ok = True,
      readdir = (\<lambda>d. Some [''a.ARW'', ''notes.txt'', ''b.arw'']),
      convertARWToPNG_ok = (\<lambda>q f. True),
      detectPNG = (\<lambda>q f. Some [tag1, tag2]),
      convertARWToJPEG_ok = (\<lambda>q f. True),
      detectJPEG = (\<lambda>q f. Some [tag1_moved]),
      unlinkPNG_ok = (\<lambda>q f. True),
      unlinkJPEG_ok = (\<lambda>q f. True),
      saveTableToFile_ok = True,
      rmdir_ok = True,
      createScatterPlot_ok = True\<rparr>"

definition world_unlink_fails :: world where
  "world_unlink_fails = world_plain\<lparr>unlinkPNG_ok := (\<lambda>q f. False)\<rparr>"

definition state0 :: loopState where
  "state0 = \<lparr>allDeltas = [], totalMissingMarkers = 0, scatterData = []\<rparr>"

section \<open>Properties of the arithmetic\<close>

lemma isNumber_simps [simp]:
  "isNumber (Num x)" "isNumber PosInf" "isNumber NegInf" "\<not> isNumber NaN" "\<not> isNumber Undefined"
  by (simp_all add: isNumber_def)

lemma isNum_simps [simp]:
  "isNum (Num x)" "\<not> isNum PosInf" "\<not> isNum NegInf" "\<not> isNum NaN" "\<not> isNum Undefined"
  by (simp_all add: isNum_def)

lemma isNum_isNumber: "isNum v \<Longrightarrow> isNumber v"
  by (cases v) simp_all

lemma jsAdd_Num [simp]: "jsAdd rnd (Num x) (Num y) = rnd (x + y)"
  by (simp add: jsAdd_def)

lemma jsSub_Num [simp]: "jsSub rnd (Num x) (Num y) = rnd (x - y)"
  by (simp add: jsSub_def jsNeg_def)

lemma jsMul_Num [simp]: "jsMul rnd (Num x) (Num y) = rnd (x * y)"
  by (simp add: jsMul_def)

lemma jsDivBy_Num [simp]: "0 < n \<Longrightarrow> jsDivBy rnd (Num x) n = rnd (x / real n)"
  by (simp add: jsDivBy_def)

lemma jsSqrt_Num [simp]: "0 \<le> x \<Longrightarrow> jsSqrt rnd (Num x) = rnd (sqrt x)"
  by (simp add: jsSqrt_def)

lemma jsLe_Num [simp]: "jsLe (Num x) (Num y) = (x \<le> y)"
  by (simp add: jsLe_def)

lemma jsval_not_number [simp]:
  "jsAdd rnd NaN b = NaN" "jsAdd rnd a NaN = NaN" "jsAdd rnd Undefined b = NaN" "jsAdd rnd a Undefined = NaN"
  "jsSub rnd NaN b = NaN" "jsSub rnd a NaN = NaN" "jsSub rnd Undefined b = NaN" "jsSub rnd a Undefined = NaN"
  "jsMul rnd NaN b = NaN" "jsMul rnd a NaN = NaN" "jsSqrt rnd NaN = NaN"
  by (simp_all add: jsAdd_def jsSub_def jsNeg_def jsMul_def jsSqrt_def)

subsection \<open>Rounding to binary64\<close>

lemma overflowThreshold_code [code]:
  "overflowThreshold = 179769313486231590772930519078902473361797697894230657273430081157732675805500963132708477322407536021120113879871393357658789768814416622492847430639474124377767893424865485276302219601246094119453082952085005768838150682342462881473913110540827237163350510684586298239947245938479716304835356329624224137216"
  by (simp add: overflowThreshold_def)

text \<open>\<open>ilog2\<close> is the binade of a positive number.\<close>

lemma ilog2_ge1:
  assumes "1 \<le> x"
  shows "2 powi (ilog2 x) \<le> x \<and> x < 2 powi (ilog2 x + 1)"
proof -
  have n: "0 < \<lfloor>x\<rfloor>" using assms by linarith
  have b: "0 \<le> bitlen \<lfloor>x\<rfloor> - 1" using n by (auto simp add: bitlen_alt_def)
  from bitlen_bounds [OF n]
  have lo: "(2::int) ^ nat (bitlen \<lfloor>x\<rfloor> - 1) \<le> \<lfloor>x\<rfloor>" and hi: "\<lfloor>x\<rfloor> < 2 ^ nat (bitlen \<lfloor>x\<rfloor>)"
    by simp_all
  have "real_of_int (2 ^ nat (bitlen \<lfloor>x\<rfloor> - 1)) \<le> real_of_int \<lfloor>x\<rfloor>"
    using lo by (simp only: of_int_le_iff)
  then have l: "2 ^ nat (bitlen \<lfloor>x\<rfloor> - 1) \<le> x"
    by (simp add: le_floor_iff)
  have "\<lfloor>x\<rfloor> + 1 \<le> 2 ^ nat (bitlen \<lfloor>x\<rfloor>)" using hi by simp
  then have "real_of_int (\<lfloor>x\<rfloor> + 1) \<le> real_of_int (2 ^ nat (bitlen \<lfloor>x\<rfloor>))"
    by (simp only: of_int_le_iff)
  then have h: "x < 2 ^ nat (bitlen \<lfloor>x\<rfloor>)"
    by (simp add: floor_less_iff) linarith
  have e: "ilog2 x = bitlen \<lfloor>x\<rfloor> - 1" using assms by (simp add: ilog2_def)
  have p1: "(2::real) powi (bitlen \<lfloor>x\<rfloor> - 1) = 2 ^ nat (bitlen \<lfloor>x\<rfloor> - 1)"
    using b by (simp add: power_int_nonneg_exp)
  have p2: "(2::real) powi (bitlen \<lfloor>x\<rfloor> - 1 + 1) = 2 ^ nat (bitlen \<lfloor>x\<rfloor>)"
    using b by (simp add: power_int_nonneg_exp)
  show ?thesis using l h e p1 p2 by simp
qed

lemma ilog2_lt1:
  assumes "0 < x" "x < 1"
  shows "2 powi (ilog2 x) \<le> x \<and> x < 2 powi (ilog2 x + 1)"
proof -
  define m where "m = \<lceil>1 / x\<rceil> - 1"
  define n where "n = bitlen m"
  have y: "1 < 1 / x" using assms by simp
  then have m: "0 < m" unfolding m_def by linarith
  have n1: "1 \<le> n" using m by (auto simp add: n_def bitlen_alt_def)
  from bitlen_bounds [OF m]
  have lo: "(2::int) ^ nat (n - 1) \<le> m" and hi: "m < 2 ^ nat n"
    by (simp_all add: n_def)
  have "2 ^ nat (n - 1) < \<lceil>1 / x\<rceil>" using lo by (simp add: m_def)
  then have a: "2 ^ nat (n - 1) < 1 / x"
    by (simp add: less_ceiling_iff)
  have "\<lceil>1 / x\<rceil> \<le> 2 ^ nat n" using hi by (simp add: m_def)
  then have b: "1 / x \<le> 2 ^ nat n"
    by (simp add: ceiling_le_iff)
  have e: "ilog2 x = - n" using assms by (simp add: ilog2_def n_def m_def)
  have p1: "(2::real) powi (- n) = 1 / 2 ^ nat n"
    using n1 by (simp add: power_int_minus_divide power_int_nonneg_exp)
  have p2: "(2::real) powi (- n + 1) = 1 / 2 ^ nat (n - 1)"
  proof -
    have "- n + 1 = - (n - 1)" by simp
    then show ?thesis using n1 by (simp only: power_int_minus_divide) (simp add: power_int_nonneg_exp)
  qed
  have l: "1 / 2 ^ nat n \<le> x"
    using b assms(1) by (simp add: field_simps)
  have h: "x < 1 / 2 ^ nat (n - 1)"
    using a assms(1) by (simp add: field_simps)
  show ?thesis using l h e p1 p2 by simp
qed

lemma ilog2_bounds:
  assumes "0 < x"
  shows "2 powi (ilog2 x) \<le> x \<and> x < 2 powi (ilog2 x + 1)"
  using assms ilog2_ge1 [of x] ilog2_lt1 [of x] by (cases "1 \<le> x") auto

lemma ilog2_unique:
  assumes "0 < x" "2 powi k \<le> x" "x < 2 powi (k + 1)"
  shows "ilog2 x = k"
proof -
  from ilog2_bounds [OF assms(1)]
  have a: "2 powi (ilog2 x) \<le> x" and b: "x < 2 powi (ilog2 x + 1)" by simp_all
  have "(2::real) powi k < 2 powi (ilog2 x + 1)" using assms(2) b by linarith
  then have "k < ilog2 x + 1"
    by (metis not_less one_le_numeral power_int_increasing)
  moreover have "(2::real) powi (ilog2 x) < 2 powi (k + 1)" using a assms(3) by linarith
  then have "ilog2 x < k + 1"
    by (metis not_less one_le_numeral power_int_increasing)
  ultimately show ?thesis by simp
qed

lemma ilog2_twice:
  assumes "0 < x"
  shows "ilog2 (2 * x) = ilog2 x + 1"
proof (rule ilog2_unique)
  show "0 < 2 * x" using assms by simp
  from ilog2_bounds [OF assms]
  have a: "2 powi (ilog2 x) \<le> x" and b: "x < 2 powi (ilog2 x + 1)" by simp_all
  show "2 powi (ilog2 x + 1) \<le> 2 * x" using a by (simp add: power_int_add)
  show "2 * x < 2 powi (ilog2 x + 1 + 1)" using b by (simp add: power_int_add)
qed

lemma ilog2_mono:
  assumes "0 < x" "x \<le> y"
  shows "ilog2 x \<le> ilog2 y"
proof -
  have y: "0 < y" using assms by simp
  have "2 powi (ilog2 x) \<le> x" using ilog2_bounds [OF assms(1)] by simp
  moreover have "y < 2 powi (ilog2 y + 1)" using ilog2_bounds [OF y] by simp
  ultimately have "(2::real) powi (ilog2 x) < 2 powi (ilog2 y + 1)" using assms(2) by linarith
  then have "ilog2 x < ilog2 y + 1"
    by (metis not_less one_le_numeral power_int_increasing)
  then show ?thesis by simp
qed

lemma roundHalfEven_floor: "\<lfloor>y\<rfloor> \<le> roundHalfEven y \<and> roundHalfEven y \<le> \<lfloor>y\<rfloor> + 1"
  by (simp add: roundHalfEven_def Let_def)

lemma roundHalfEven_int: "roundHalfEven (of_int n) = n"
  by (simp add: roundHalfEven_def Let_def)

lemma roundHalfEven_mono:
  assumes "y1 \<le> y2"
  shows "roundHalfEven y1 \<le> roundHalfEven y2"
proof (cases "\<lfloor>y1\<rfloor> = \<lfloor>y2\<rfloor>")
  case True
  then have "y1 - of_int \<lfloor>y1\<rfloor> \<le> y2 - of_int \<lfloor>y2\<rfloor>" using assms by simp
  then show ?thesis using True
    by (auto simp add: roundHalfEven_def Let_def)
next
  case False
  then have "\<lfloor>y1\<rfloor> + 1 \<le> \<lfloor>y2\<rfloor>" using assms floor_mono [of y1 y2] by linarith
  then show ?thesis
    using roundHalfEven_floor [of y1] roundHalfEven_floor [of y2] by linarith
qed

lemma roundHalfEven_ge: "of_int n \<le> y \<Longrightarrow> n \<le> roundHalfEven y"
  using roundHalfEven_mono [of "of_int n" y] by (simp add: roundHalfEven_int)

lemma roundHalfEven_le: "y \<le> of_int n \<Longrightarrow> roundHalfEven y \<le> n"
  using roundHalfEven_mono [of y "of_int n"] by (simp add: roundHalfEven_int)

lemma roundHalfEven_near:
  assumes "of_int n - 1 / 2 < y" "y < of_int n + 1 / 2"
  shows "roundHalfEven y = n"
proof -
  have "\<lfloor>y\<rfloor> = n \<or> \<lfloor>y\<rfloor> = n - 1" using assms by linarith
  then show ?thesis
  proof
    assume f: "\<lfloor>y\<rfloor> = n"
    then show ?thesis using assms by (simp add: roundHalfEven_def Let_def)
  next
    assume f: "\<lfloor>y\<rfloor> = n - 1"
    then show ?thesis using assms by (simp add: roundHalfEven_def Let_def)
  qed
qed

text \<open>
  The rounding to the binary64 grid keeps the sign, is monotone on the non-negative
  numbers, and the double of a binary64 number is on the grid again.
\<close>

lemma binary64_pos:
  assumes "x \<noteq> 0"
  shows "binary64 x = of_int (roundHalfEven (x / 2 powi ulpExponent x)) * 2 powi ulpExponent x"
  using assms by (simp add: binary64_def)

lemma binary64_nonneg:
  assumes "0 \<le> x"
  shows "0 \<le> binary64 x"
proof (cases "x = 0")
  case True
  then show ?thesis by (simp add: binary64_def)
next
  case False
  have "of_int 0 \<le> x / 2 powi ulpExponent x" using assms by simp
  then have "0 \<le> roundHalfEven (x / 2 powi ulpExponent x)" by (rule roundHalfEven_ge)
  then show ?thesis using False by (simp add: binary64_pos)
qed

lemma ulpExponent_mono:
  assumes "0 < x" "x \<le> y"
  shows "ulpExponent x \<le> ulpExponent y"
  using ilog2_mono [OF assms] assms by (simp add: ulpExponent_def)

lemma binary64_mono_pos:
  assumes "0 < x" "x \<le> y"
  shows "binary64 x \<le> binary64 y"
proof (cases "ulpExponent x = ulpExponent y")
  case True
  have y: "0 < y" using assms by simp
  define e where "e = ulpExponent x"
  have "x / 2 powi e \<le> y / 2 powi e" using assms(2) by (simp add: divide_right_mono)
  then have "roundHalfEven (x / 2 powi e) \<le> roundHalfEven (y / 2 powi e)"
    by (rule roundHalfEven_mono)
  then have "real_of_int (roundHalfEven (x / 2 powi e)) * 2 powi e
      \<le> real_of_int (roundHalfEven (y / 2 powi e)) * 2 powi e"
    by (intro mult_right_mono) simp_all
  then show ?thesis using assms(1) y True by (simp add: binary64_pos e_def)
next
  case False
  have y: "0 < y" using assms by simp
  define ex where "ex = ulpExponent x"
  define ey where "ey = ulpExponent y"
  define k where "k = ilog2 y"
  have lt: "ex < ey" using False ulpExponent_mono [OF assms] by (simp add: ex_def ey_def)
  have "- 1074 \<le> ex" by (simp add: ex_def ulpExponent_def)
  then have ey: "ey = k - 52" using lt y by (simp add: ey_def k_def ulpExponent_def)
  have "ilog2 x - 52 \<le> ex" using assms(1) by (simp add: ex_def ulpExponent_def)
  then have kx: "ilog2 x + 1 \<le> k" using lt ey by simp
  have xk: "x \<le> 2 powi k"
  proof -
    have "x < 2 powi (ilog2 x + 1)" using ilog2_bounds [OF assms(1)] by simp
    moreover have "(2::real) powi (ilog2 x + 1) \<le> 2 powi k"
      using kx by (intro power_int_increasing) simp_all
    ultimately show ?thesis by simp
  qed
  have d: "0 \<le> k - ex" using lt ey by simp
  have pk: "(2::real) powi k = of_int (2 ^ nat (k - ex)) * 2 powi ex"
  proof -
    have "(2::real) powi k = 2 powi (k - ex) * 2 powi ex"
      by (simp add: power_int_diff)
    also have "(2::real) powi (k - ex) = 2 ^ nat (k - ex)"
      using d by (simp add: power_int_nonneg_exp)
    finally show ?thesis by simp
  qed
  have "x / 2 powi ex \<le> of_int (2 ^ nat (k - ex))"
    using xk pk by (simp add: pos_divide_le_eq)
  then have "roundHalfEven (x / 2 powi ex) \<le> 2 ^ nat (k - ex)" by (rule roundHalfEven_le)
  then have "real_of_int (roundHalfEven (x / 2 powi ex)) \<le> real_of_int (2 ^ nat (k - ex))"
    by (simp only: of_int_le_iff)
  then have "real_of_int (roundHalfEven (x / 2 powi ex)) * 2 powi ex
      \<le> real_of_int (2 ^ nat (k - ex)) * 2 powi ex"
    by (intro mult_right_mono) simp_all
  then have lo: "binary64 x \<le> 2 powi k"
    using assms(1) pk by (simp add: binary64_pos ex_def)
  have py: "(2::real) powi k = of_int (2 ^ 52) * 2 powi ey"
    by (simp add: ey power_int_diff)
  have "2 powi k \<le> y" using ilog2_bounds [OF y] by (simp add: k_def)
  then have "of_int (2 ^ 52) \<le> y / 2 powi ey"
    using py by (simp add: pos_le_divide_eq)
  then have "2 ^ 52 \<le> roundHalfEven (y / 2 powi ey)" by (rule roundHalfEven_ge)
  then have "real_of_int (2 ^ 52) \<le> real_of_int (roundHalfEven (y / 2 powi ey))"
    by (simp only: of_int_le_iff)
  then have "real_of_int (2 ^ 52) * 2 powi ey \<le> real_of_int (roundHalfEven (y / 2 powi ey)) * 2 powi ey"
    by (intro mult_right_mono) simp_all
  then have hi: "2 powi k \<le> binary64 y"
    using y py by (simp add: binary64_pos ey_def)
  show ?thesis using lo hi by simp
qed

lemma binary64_mono:
  assumes "0 \<le> x" "x \<le> y"
  shows "binary64 x \<le> binary64 y"
proof (cases "x = 0")
  case True
  have "0 \<le> binary64 y" using assms by (intro binary64_nonneg) simp
  then show ?thesis using True by (simp add: binary64_def)
next
  case False
  then have "0 < x" using assms(1) by simp
  then show ?thesis using assms(2) by (rule binary64_mono_pos)
qed

lemma binary64_twice:
  assumes "binary64 x = x"
  shows "binary64 (2 * x) = 2 * x"
proof (cases "x = 0")
  case True
  then show ?thesis by (simp add: binary64_def)
next
  case False
  define e where "e = ulpExponent x"
  define n where "n = roundHalfEven (x / 2 powi e)"
  have x: "x = of_int n * 2 powi e"
    using assms False by (simp add: binary64_pos e_def n_def)
  have l: "ilog2 \<bar>2 * x\<bar> = ilog2 \<bar>x\<bar> + 1"
    using False ilog2_twice [of "\<bar>x\<bar>"] by (simp add: abs_mult)
  have nz: "2 * x \<noteq> 0" using False by simp
  show ?thesis
  proof (cases "- 1074 \<le> ilog2 \<bar>x\<bar> - 52")
    case True
    then have e2: "ulpExponent (2 * x) = e + 1"
      using l by (simp add: ulpExponent_def e_def)
    have p: "(2::real) powi (e + 1) = 2 * 2 powi e"
      by (simp add: power_int_add)
    have q: "2 * x / (2 * 2 powi e) = x / 2 powi e" by simp
    have "binary64 (2 * x) = of_int (roundHalfEven (2 * x / 2 powi (e + 1))) * 2 powi (e + 1)"
      using binary64_pos [OF nz] by (simp only: e2)
    also have "\<dots> = of_int (roundHalfEven (x / 2 powi e)) * (2 * 2 powi e)"
      unfolding p q ..
    also have "\<dots> = 2 * binary64 x"
      using False by (simp add: binary64_pos e_def)
    finally show ?thesis using assms by simp
  next
    case False
    then have e1: "e = - 1074" and e2: "ulpExponent (2 * x) = e"
      using l by (simp_all add: ulpExponent_def e_def)
    have "2 * x / 2 powi e = of_int (2 * n)"
      using x by simp
    then have "roundHalfEven (2 * x / 2 powi e) = 2 * n"
      by (simp only: roundHalfEven_int)
    then have "binary64 (2 * x) = of_int (2 * n) * 2 powi e"
      using binary64_pos [OF nz] by (simp only: e2)
    then show ?thesis using x by simp
  qed
qed

text \<open>The rounding of the machine, where the magnitude stays below \<open>2 ^ 1024\<close>.\<close>

lemma double_Num: "double x = Num y \<Longrightarrow> binary64 x = y \<and> - (2 ^ 1024) < y \<and> y < 2 ^ 1024"
  by (simp add: double_def Let_def overflowThreshold_def split: if_splits)

lemma double_finite: "- (2 ^ 1024) < binary64 x \<Longrightarrow> binary64 x < 2 ^ 1024 \<Longrightarrow> double x = Num (binary64 x)"
  by (simp add: double_def Let_def overflowThreshold_def)

lemma double_isNumber [simp]: "isNumber (double x)"
  by (simp add: double_def Let_def)

lemma double_nonneg:
  assumes "0 \<le> x"
  shows "double x = PosInf \<or> (\<exists>y. double x = Num y \<and> 0 \<le> y)"
proof -
  have "0 \<le> binary64 x" using assms by (rule binary64_nonneg)
  then show ?thesis by (simp add: double_def Let_def overflowThreshold_def)
qed

text \<open>
  The mean of two binary64 numbers in binary64 arithmetic lies between them when their sum
  does not overflow, and it is their exact mean when that is a binary64 number.
\<close>

lemma double_mean_between:
  assumes "0 \<le> a" "a \<le> b" "double a = Num a" "double b = Num b" "b < 2 ^ 1023"
  shows "\<exists>w. jsDivBy double (jsAdd double (Num a) (Num b)) 2 = Num w \<and> a \<le> w \<and> w \<le> b"
proof -
  have ra: "binary64 a = a" and rb: "binary64 b = b"
    using double_Num [OF assms(3)] double_Num [OF assms(4)] by simp_all
  have a2: "binary64 (2 * a) = 2 * a" and b2: "binary64 (2 * b) = 2 * b"
    using ra rb by (simp_all add: binary64_twice)
  define v where "v = binary64 (a + b)"
  have "binary64 (2 * a) \<le> v" unfolding v_def using assms(1,2) by (intro binary64_mono) simp_all
  then have lo: "2 * a \<le> v" using a2 by simp
  have "v \<le> binary64 (2 * b)" unfolding v_def using assms(1,2) by (intro binary64_mono) simp_all
  then have hi: "v \<le> 2 * b" using b2 by simp
  have "v < 2 ^ 1024" using hi assms(5) by simp
  moreover have "- (2 ^ 1024) < v" using lo assms(1) by simp
  ultimately have s: "double (a + b) = Num v" unfolding v_def by (rule double_finite [rotated])
  define w where "w = binary64 (v / 2)"
  have "binary64 a \<le> w" unfolding w_def using assms(1) lo by (intro binary64_mono) simp_all
  then have wlo: "a \<le> w" using ra by simp
  have "0 \<le> v / 2" using lo assms(1) by simp
  then have "w \<le> binary64 b" unfolding w_def using hi by (intro binary64_mono) simp_all
  then have whi: "w \<le> b" using rb by simp
  have "w < 2 ^ 1024" using whi assms(5) by simp
  moreover have "- (2 ^ 1024) < w" using wlo assms(1) by simp
  ultimately have "double (v / 2) = Num w" unfolding w_def by (rule double_finite [rotated])
  then have "jsDivBy double (jsAdd double (Num a) (Num b)) 2 = Num w"
    using s by simp
  then show ?thesis using wlo whi by blast
qed

lemma double_mean_exact:
  assumes "double m = Num m" "\<bar>m\<bar> < 2 ^ 1023" "a + b = 2 * m"
  shows "jsDivBy double (jsAdd double (Num a) (Num b)) 2 = Num m"
proof -
  have rm: "binary64 m = m" using double_Num [OF assms(1)] by simp
  then have "binary64 (2 * m) = 2 * m" by (rule binary64_twice)
  moreover have "- (2 ^ 1024) < 2 * m" "2 * m < 2 ^ 1024" using assms(2) by simp_all
  ultimately have "double (2 * m) = Num (2 * m)" using double_finite [of "2 * m"] by simp
  then show ?thesis using assms(1,3) by simp
qed

text \<open>
  The powers of two from \<open>2 ^ -1074\<close> on are on the grid, and those from \<open>2 ^ 1024\<close>
  on overflow. The square root of 2 is rounded to 1.4142135623730951.
\<close>

lemma binary64_power:
  assumes "- 1074 \<le> k"
  shows "binary64 (2 powi k) = 2 powi k"
proof -
  have pos: "(0::real) < 2 powi k" by simp
  have "(2::real) powi k < 2 powi (k + 1)" by (simp add: power_int_add)
  then have l: "ilog2 (2 powi k) = k" using pos by (intro ilog2_unique) simp_all
  define e where "e = ulpExponent (2 powi k)"
  have e: "e = max (k - 52) (- 1074)" by (simp add: e_def ulpExponent_def l)
  then have d: "0 \<le> k - e" using assms by simp
  have "(2::real) powi k / 2 powi e = 2 powi (k - e)" by (simp add: power_int_diff)
  also have "\<dots> = of_int (2 ^ nat (k - e))" using d by (simp add: power_int_nonneg_exp)
  finally have "roundHalfEven (2 powi k / 2 powi e) = 2 ^ nat (k - e)"
    by (simp only: roundHalfEven_int)
  then have "binary64 (2 powi k) = of_int (2 ^ nat (k - e)) * 2 powi e"
    using binary64_pos [of "2 powi k"] by (simp add: e_def)
  also have "of_int (2 ^ nat (k - e)) = (2::real) powi (k - e)" using d by (simp add: power_int_nonneg_exp)
  also have "(2::real) powi (k - e) * 2 powi e = 2 powi k" by (simp add: power_int_diff)
  finally show ?thesis .
qed

lemma double_power:
  assumes "- 1074 \<le> k" "k < 1024"
  shows "double (2 powi k) = Num (2 powi k)"
proof -
  have "(2::real) powi k < 2 powi 1024" using assms(2) by (intro power_int_strict_increasing) simp_all
  then have "(2::real) powi k < 2 ^ 1024" by simp
  moreover have "- (2 ^ 1024) < (2::real) powi k"
  proof -
    have "(0::real) < 2 powi k" and "(0::real) < 2 ^ 1024" by simp_all
    then show ?thesis by linarith
  qed
  ultimately show ?thesis using double_finite [of "2 powi k"] binary64_power [OF assms(1)] by simp
qed

lemma double_power_overflow:
  assumes "1024 \<le> k"
  shows "double (2 powi k) = PosInf"
proof -
  have "(2::real) powi 1024 \<le> 2 powi k" using assms by (intro power_int_increasing) simp_all
  then have "(2::real) ^ 1024 \<le> 2 powi k" by simp
  moreover have "binary64 (2 powi k) = 2 powi k" using assms by (intro binary64_power) simp
  ultimately show ?thesis by (simp add: double_def Let_def overflowThreshold_def)
qed

lemma double_sqrt2: "double (sqrt 2) = Num (6369051672525773 / 4503599627370496)"
proof -
  have one: "1 \<le> sqrt 2" by simp
  have two: "sqrt 2 < 2" by (rule real_less_lsqrt) simp_all
  have "ilog2 (sqrt 2) = 0" using one two by (intro ilog2_unique) simp_all
  then have e: "ulpExponent (sqrt 2) = - 52" by (simp add: ulpExponent_def)
  have p: "(2::real) powi (- 52) = 1 / 4503599627370496" by (simp add: power_int_minus_divide)
  have q: "sqrt 2 / 2 powi (- 52) = sqrt 2 * 4503599627370496" by (simp add: p)
  have lo: "of_int 6369051672525773 - 1 / 2 < sqrt 2 * 4503599627370496"
  proof -
    have "(12738103345051545 / 9007199254740992 :: real) < sqrt 2"
      by (rule real_less_rsqrt) (simp add: power2_eq_square)
    then show ?thesis by simp
  qed
  have hi: "sqrt 2 * 4503599627370496 < of_int 6369051672525773 + 1 / 2"
  proof -
    have "sqrt 2 < (12738103345051547 / 9007199254740992 :: real)"
      by (rule real_less_lsqrt) (simp_all add: power2_eq_square)
    then show ?thesis by simp
  qed
  have "roundHalfEven (sqrt 2 * 4503599627370496) = 6369051672525773"
    using lo hi by (rule roundHalfEven_near)
  then have b: "binary64 (sqrt 2) = 6369051672525773 / 4503599627370496"
    using binary64_pos [of "sqrt 2"] by (simp add: e q p)
  show ?thesis using double_finite [of "sqrt 2"] by (simp add: b)
qed

lemma double_small: "double 0 = Num 0" "double 1 = Num 1" "double (- 1) = Num (- 1)" "double 2 = Num 2"
  by code_simp+

lemma tenth_is_double: "double (1 / 10) = Num tenth" "double tenth = Num tenth"
  by code_simp+

subsection \<open>The error of a rounding\<close>

text \<open>
  In the normal range a rounding changes a number by at most the unit roundoff, relative
  to the number; the bounds below follow a quantity that is not below zero through a
  computation, one factor \<open>1 - 2 ^ -53\<close> or \<open>1 + 2 ^ -53\<close> for each rounding.
\<close>

lemma roundHalfEven_error: "\<bar>of_int (roundHalfEven y) - y\<bar> \<le> 1 / 2"
proof -
  have "of_int \<lfloor>y\<rfloor> \<le> y" "y < of_int \<lfloor>y\<rfloor> + 1" by linarith+
  then show ?thesis by (auto simp add: roundHalfEven_def Let_def abs_le_iff)
qed

lemma binary64_error:
  assumes "2 powi (- 1022) \<le> \<bar>x\<bar>"
  shows "\<bar>binary64 x - x\<bar> \<le> unitRoundoff * \<bar>x\<bar>"
proof -
  have p: "(0::real) < 2 powi (- 1022)" by simp
  then have pos: "0 < \<bar>x\<bar>" using assms by linarith
  then have nz: "x \<noteq> 0" by simp
  define k where "k = ilog2 \<bar>x\<bar>"
  have lo: "2 powi k \<le> \<bar>x\<bar>" and hi: "\<bar>x\<bar> < 2 powi (k + 1)"
    using ilog2_bounds [OF pos] by (simp_all add: k_def)
  have "(2::real) powi (- 1022) < 2 powi (k + 1)" using assms hi by linarith
  then have "- 1022 < k + 1" by (metis not_less one_le_numeral power_int_increasing)
  then have e: "ulpExponent x = k - 52" by (simp add: ulpExponent_def k_def)
  define y where "y = x / 2 powi (k - 52)"
  have x: "x = y * 2 powi (k - 52)" by (simp add: y_def)
  have "binary64 x - x = (of_int (roundHalfEven y) - y) * 2 powi (k - 52)"
    using binary64_pos [OF nz] by (simp add: e y_def algebra_simps)
  then have "\<bar>binary64 x - x\<bar> = \<bar>of_int (roundHalfEven y) - y\<bar> * 2 powi (k - 52)"
    by (simp add: abs_mult)
  also have "\<dots> \<le> 1 / 2 * 2 powi (k - 52)"
    using roundHalfEven_error [of y] by (intro mult_right_mono) simp_all
  also have "\<dots> = unitRoundoff * 2 powi k"
    by (simp add: unitRoundoff_def power_int_diff)
  also have "\<dots> \<le> unitRoundoff * \<bar>x\<bar>"
    using lo by (intro mult_left_mono) (simp_all add: unitRoundoff_def)
  finally show ?thesis .
qed

lemma u_bounds: "0 < unitRoundoff" "unitRoundoff < 1" "0 < 1 - unitRoundoff" "1 - unitRoundoff \<le> 1" "1 \<le> 1 + unitRoundoff"
  by (simp_all add: unitRoundoff_def)

lemma nearBy_nonneg: "0 \<le> a \<Longrightarrow> nearBy k a x \<Longrightarrow> 0 \<le> x"
proof -
  assume a: "0 \<le> a" and w: "nearBy k a x"
  have "0 \<le> a * (1 - unitRoundoff) ^ k" using a u_bounds by (intro mult_nonneg_nonneg) simp_all
  then show ?thesis using w by (simp add: nearBy_def)
qed

lemma nearBy_zero: "nearBy k 0 x \<Longrightarrow> x = 0"
  by (simp add: nearBy_def)

lemma nearBy_refl: "nearBy 0 a a"
  by (simp add: nearBy_def)

lemma nearBy_weaken:
  assumes "nearBy i a x" "i \<le> j" "0 \<le> a"
  shows "nearBy j a x"
proof -
  have "(1 - unitRoundoff) ^ j \<le> (1 - unitRoundoff) ^ i"
    using assms(2) u_bounds by (intro power_decreasing) simp_all
  then have "a * (1 - unitRoundoff) ^ j \<le> a * (1 - unitRoundoff) ^ i"
    using assms(3) by (rule mult_left_mono)
  moreover have "(1 + unitRoundoff) ^ i \<le> (1 + unitRoundoff) ^ j"
    using assms(2) u_bounds by (intro power_increasing) simp_all
  then have "a * (1 + unitRoundoff) ^ i \<le> a * (1 + unitRoundoff) ^ j"
    using assms(3) by (rule mult_left_mono)
  ultimately show ?thesis using assms(1) by (simp add: nearBy_def)
qed

lemma nearBy_add:
  assumes "nearBy k a x" "nearBy k b y"
  shows "nearBy k (a + b) (x + y)"
  using assms by (simp add: nearBy_def algebra_simps)

lemma nearBy_mult:
  assumes "nearBy i a x" "nearBy j b y" "0 \<le> a" "0 \<le> b"
  shows "nearBy (i + j) (a * b) (x * y)"
proof -
  have x: "0 \<le> x" and y: "0 \<le> y" using assms nearBy_nonneg by blast+
  have la: "0 \<le> a * (1 - unitRoundoff) ^ i" using assms(3) u_bounds by (intro mult_nonneg_nonneg) simp_all
  have lb: "0 \<le> b * (1 - unitRoundoff) ^ j" using assms(4) u_bounds by (intro mult_nonneg_nonneg) simp_all
  have "(a * (1 - unitRoundoff) ^ i) * (b * (1 - unitRoundoff) ^ j) \<le> x * y"
    using assms(1,2) la lb x y by (intro mult_mono) (simp_all add: nearBy_def)
  moreover have "x * y \<le> (a * (1 + unitRoundoff) ^ i) * (b * (1 + unitRoundoff) ^ j)"
    using assms(1,2) x y by (intro mult_mono) (simp_all add: nearBy_def)
  ultimately show ?thesis by (simp add: nearBy_def power_add algebra_simps)
qed

lemma sqrt_power_even:
  assumes "0 \<le> c"
  shows "sqrt (c ^ (2 * k)) = c ^ k"
proof -
  have "c ^ (2 * k) = (c ^ k)\<^sup>2" by (rule power_even_eq)
  then have "sqrt (c ^ (2 * k)) = \<bar>c ^ k\<bar>" by (simp only: real_sqrt_abs)
  then show ?thesis using assms by simp
qed

lemma nearBy_sqrt:
  assumes "nearBy (2 * k) a x" "0 \<le> a"
  shows "nearBy k (sqrt a) (sqrt x)"
proof -
  have l: "sqrt (a * (1 - unitRoundoff) ^ (2 * k)) = sqrt a * (1 - unitRoundoff) ^ k"
    using u_bounds by (simp only: real_sqrt_mult sqrt_power_even)
  have h: "sqrt (a * (1 + unitRoundoff) ^ (2 * k)) = sqrt a * (1 + unitRoundoff) ^ k"
    using u_bounds by (simp only: real_sqrt_mult sqrt_power_even)
  have "sqrt (a * (1 - unitRoundoff) ^ (2 * k)) \<le> sqrt x"
    using assms(1) by (simp add: nearBy_def)
  moreover have "sqrt x \<le> sqrt (a * (1 + unitRoundoff) ^ (2 * k))"
    using assms(1) by (simp add: nearBy_def)
  ultimately show ?thesis unfolding l h by (simp add: nearBy_def)
qed

text \<open>One rounding more.\<close>

lemma double_nearBy:
  assumes "0 \<le> a" "nearBy k a x" "x = 0 \<or> 2 powi (- 1022) \<le> x" "x \<le> 2 ^ 1023"
  shows "\<exists>y. double x = Num y \<and> nearBy (Suc k) a y"
proof (cases "x = 0")
  case True
  then have "a * (1 - unitRoundoff) ^ k \<le> 0" using assms(2) by (simp add: nearBy_def)
  moreover have "0 < (1 - unitRoundoff) ^ k" using u_bounds by simp
  ultimately have "a \<le> 0" by (simp add: mult_le_0_iff)
  then have "a = 0" using assms(1) by simp
  then have "nearBy (Suc k) a 0" by (simp add: nearBy_def)
  then show ?thesis using True double_small(1) by simp
next
  case False
  have x0: "0 \<le> x" using assms(1,2) by (rule nearBy_nonneg)
  then have xp: "2 powi (- 1022) \<le> \<bar>x\<bar>" using False assms(3) by simp
  have err: "\<bar>binary64 x - x\<bar> \<le> unitRoundoff * x"
    using binary64_error [OF xp] x0 by simp
  then have lo: "x * (1 - unitRoundoff) \<le> binary64 x" and hi: "binary64 x \<le> x * (1 + unitRoundoff)"
    by (simp_all add: abs_le_iff algebra_simps)
  have "a * (1 - unitRoundoff) ^ k * (1 - unitRoundoff) \<le> x * (1 - unitRoundoff)"
    using assms(2) u_bounds by (intro mult_right_mono) (simp_all add: nearBy_def)
  then have l: "a * (1 - unitRoundoff) ^ Suc k \<le> binary64 x" using lo by (simp add: algebra_simps)
  have "x * (1 + unitRoundoff) \<le> a * (1 + unitRoundoff) ^ k * (1 + unitRoundoff)"
    using assms(2) u_bounds by (intro mult_right_mono) (simp_all add: nearBy_def)
  then have h: "binary64 x \<le> a * (1 + unitRoundoff) ^ Suc k" using hi by (simp add: algebra_simps)
  have "x * (1 + unitRoundoff) < 2 ^ 1024"
  proof -
    have "x * (1 + unitRoundoff) \<le> 2 ^ 1023 * (1 + unitRoundoff)"
      using assms(4) u_bounds by (intro mult_right_mono) simp_all
    also have "\<dots> < 2 ^ 1023 * 2" using u_bounds by (intro mult_strict_left_mono) simp_all
    finally show ?thesis by simp
  qed
  then have fin: "binary64 x < 2 ^ 1024" using hi by linarith
  have "0 \<le> x * (1 - unitRoundoff)" using x0 u_bounds by (intro mult_nonneg_nonneg) simp_all
  then have "0 \<le> binary64 x" using lo by linarith
  moreover have "(0::real) < 2 ^ 1024" by simp
  ultimately have "- (2 ^ 1024) < binary64 x" by linarith
  then have "double x = Num (binary64 x)" using fin by (rule double_finite)
  then show ?thesis using l h by (simp add: nearBy_def)
qed

lemma u_powers:
  assumes "k \<le> 2 ^ 52"
  shows "1 / 2 \<le> (1 - unitRoundoff) ^ k" "(1 + unitRoundoff) ^ k \<le> 2"
proof -
  have ku: "real k * unitRoundoff \<le> 1 / 2"
  proof -
    have "real k \<le> real (2 ^ 52)" using assms by (simp only: of_nat_le_iff)
    then have "real k * unitRoundoff \<le> real (2 ^ 52) * unitRoundoff"
      using u_bounds by (intro mult_right_mono) simp_all
    then show ?thesis by (simp add: unitRoundoff_def)
  qed
  have "1 + real k * (- unitRoundoff) \<le> (1 + (- unitRoundoff)) ^ k"
    using u_bounds by (intro Bernoulli_inequality) simp
  then have b: "1 - real k * unitRoundoff \<le> (1 - unitRoundoff) ^ k" by simp
  then show lo: "1 / 2 \<le> (1 - unitRoundoff) ^ k" using ku by linarith
  have "(1 + unitRoundoff) * (1 - unitRoundoff) \<le> 1"
    by (simp add: algebra_simps)
  then have "((1 + unitRoundoff) * (1 - unitRoundoff)) ^ k \<le> 1"
    using u_bounds by (intro power_le_one mult_nonneg_nonneg) simp_all
  then have "(1 + unitRoundoff) ^ k * (1 - unitRoundoff) ^ k \<le> 1"
    by (simp add: power_mult_distrib)
  moreover have "(1 + unitRoundoff) ^ k * (1 / 2) \<le> (1 + unitRoundoff) ^ k * (1 - unitRoundoff) ^ k"
    using lo u_bounds by (intro mult_left_mono) simp_all
  ultimately show "(1 + unitRoundoff) ^ k \<le> 2" by simp
qed

lemma nearBy_range:
  assumes "nearBy k a x" "k \<le> 2 ^ 52" "a = 0 \<or> l \<le> a" "a \<le> h" "0 \<le> l"
  shows "(x = 0 \<or> l / 2 \<le> x) \<and> x \<le> 2 * h"
proof -
  have a0: "0 \<le> a" using assms(3,5) by auto
  have "a * (1 / 2) \<le> a * (1 - unitRoundoff) ^ k"
    using a0 u_powers(1) [OF assms(2)] by (rule mult_left_mono [rotated])
  then have lo: "a / 2 \<le> x" using assms(1) by (simp add: nearBy_def)
  have "a * (1 + unitRoundoff) ^ k \<le> a * 2"
    using a0 u_powers(2) [OF assms(2)] by (rule mult_left_mono [rotated])
  then have hi: "x \<le> 2 * a" using assms(1) by (simp add: nearBy_def)
  have "x = 0 \<or> l / 2 \<le> x"
  proof (cases "a = 0")
    case True
    then show ?thesis using assms(1) nearBy_zero by blast
  next
    case False
    then have "l \<le> a" using assms(3) by simp
    then show ?thesis using lo by simp
  qed
  then show ?thesis using hi assms(4) by simp
qed

lemma nearBy_scale:
  assumes "nearBy k a x" "0 \<le> c"
  shows "nearBy k (a / c) (x / c)"
  using assms by (simp add: nearBy_def divide_right_mono)

lemma double_signed:
  assumes "d = 0 \<or> 2 powi (- 1022) \<le> \<bar>d\<bar>" "\<bar>d\<bar> \<le> 2 ^ 1023"
  shows "\<exists>y. double d = Num y \<and> nearBy 1 \<bar>d\<bar> \<bar>y\<bar>"
proof (cases "d = 0")
  case True
  then show ?thesis using double_small(1) by (simp add: nearBy_def)
next
  case False
  then have dp: "2 powi (- 1022) \<le> \<bar>d\<bar>" using assms(1) by simp
  have err: "\<bar>binary64 d - d\<bar> \<le> unitRoundoff * \<bar>d\<bar>" using dp by (rule binary64_error)
  have t1: "\<bar>binary64 d\<bar> - \<bar>d\<bar> \<le> \<bar>binary64 d - d\<bar>" by (rule abs_triangle_ineq2)
  have t2: "\<bar>d\<bar> - \<bar>binary64 d\<bar> \<le> \<bar>binary64 d - d\<bar>" by (rule abs_triangle_ineq2_sym)
  have "\<bar>d\<bar> * (1 - unitRoundoff) = \<bar>d\<bar> - unitRoundoff * \<bar>d\<bar>" by (simp add: algebra_simps)
  then have lo: "\<bar>d\<bar> * (1 - unitRoundoff) \<le> \<bar>binary64 d\<bar>"
    using err t2 by linarith
  have "\<bar>d\<bar> * (1 + unitRoundoff) = \<bar>d\<bar> + unitRoundoff * \<bar>d\<bar>" by (simp add: algebra_simps)
  then have hi: "\<bar>binary64 d\<bar> \<le> \<bar>d\<bar> * (1 + unitRoundoff)"
    using err t1 by linarith
  have "\<bar>d\<bar> * (1 + unitRoundoff) < 2 ^ 1024"
  proof -
    have "\<bar>d\<bar> * (1 + unitRoundoff) \<le> 2 ^ 1023 * (1 + unitRoundoff)"
      using assms(2) u_bounds by (intro mult_right_mono) simp_all
    also have "\<dots> < 2 ^ 1023 * 2" using u_bounds by (intro mult_strict_left_mono) simp_all
    finally show ?thesis by simp
  qed
  then have "\<bar>binary64 d\<bar> < 2 ^ 1024" using hi by linarith
  then have "- (2 ^ 1024) < binary64 d" "binary64 d < 2 ^ 1024" by linarith+
  then have "double d = Num (binary64 d)" by (rule double_finite)
  then show ?thesis using lo hi by (simp add: nearBy_def)
qed

lemma square_near:
  assumes "moderate d"
  shows "\<exists>a. jsMul double (double d) (double d) = Num a \<and> nearBy 3 (d * d) a"
proof -
  have m1: "d = 0 \<or> 2 powi (- 500) \<le> \<bar>d\<bar>" and m2: "\<bar>d\<bar> \<le> 2 ^ 500"
    using assms by (simp_all add: moderate_def)
  have "(2::real) powi (- 1022) \<le> 2 powi (- 500)" by (intro power_int_increasing) simp_all
  then have r1: "d = 0 \<or> 2 powi (- 1022) \<le> \<bar>d\<bar>" using m1 by linarith
  have "(2::real) ^ 500 \<le> 2 ^ 1023" by (intro power_increasing) simp_all
  then have r2: "\<bar>d\<bar> \<le> 2 ^ 1023" using m2 by linarith
  obtain y where y: "double d = Num y" and ny: "nearBy 1 \<bar>d\<bar> \<bar>y\<bar>"
    using double_signed [OF r1 r2] by blast
  have sq: "nearBy (1 + 1) (\<bar>d\<bar> * \<bar>d\<bar>) (\<bar>y\<bar> * \<bar>y\<bar>)"
    using ny ny by (rule nearBy_mult) simp_all
  have dd: "\<bar>d\<bar> * \<bar>d\<bar> = d * d" and yy: "\<bar>y\<bar> * \<bar>y\<bar> = y * y" by simp_all
  have n2: "nearBy 2 (d * d) (y * y)" using sq unfolding dd yy one_add_one .
  have lo: "d * d = 0 \<or> 2 powi (- 1000) \<le> d * d"
  proof (cases "d = 0")
    case True
    then show ?thesis by simp
  next
    case False
    then have "2 powi (- 500) \<le> \<bar>d\<bar>" using m1 by simp
    then have "2 powi (- 500) * 2 powi (- 500) \<le> \<bar>d\<bar> * \<bar>d\<bar>"
      by (intro mult_mono) simp_all
    moreover have "(2::real) powi (- 500) * 2 powi (- 500) = 2 powi (- 1000)"
      by (simp add: power_int_add [symmetric])
    ultimately show ?thesis using dd by simp
  qed
  have hi: "d * d \<le> 2 ^ 1000"
  proof -
    have "\<bar>d\<bar> * \<bar>d\<bar> \<le> 2 ^ 500 * 2 ^ 500" using m2 by (intro mult_mono) simp_all
    moreover have "(2::real) ^ 500 * 2 ^ 500 = 2 ^ 1000" by (simp add: power_add [symmetric])
    ultimately show ?thesis using dd by simp
  qed
  have rg: "(y * y = 0 \<or> 2 powi (- 1000) / 2 \<le> y * y) \<and> y * y \<le> 2 * 2 ^ 1000"
    using n2 _ lo hi by (rule nearBy_range) simp_all
  have "(2::real) powi (- 1022) \<le> 2 powi (- 1001)" by (intro power_int_increasing) simp_all
  moreover have "(2::real) powi (- 1000) / 2 = 2 powi (- 1001)" by (simp add: power_int_diff)
  ultimately have c1: "y * y = 0 \<or> 2 powi (- 1022) \<le> y * y" using rg by auto
  have "(2::real) * 2 ^ 1000 \<le> 2 ^ 1023"
  proof -
    have "(2::real) * 2 ^ 1000 = 2 ^ 1001" by simp
    moreover have "(2::real) ^ 1001 \<le> 2 ^ 1023" by (intro power_increasing) simp_all
    ultimately show ?thesis by simp
  qed
  then have c2: "y * y \<le> 2 ^ 1023" using rg by linarith
  have "0 \<le> d * d" by simp
  then obtain a where a: "double (y * y) = Num a" and na: "nearBy (Suc 2) (d * d) a"
    using double_nearBy [OF _ n2 c1 c2] by blast
  have "jsMul double (double d) (double d) = Num a" using y a by simp
  moreover have "nearBy 3 (d * d) a" using na by (simp add: numeral_3_eq_3)
  ultimately show ?thesis by blast
qed


lemma moderate_square:
  assumes "moderate d"
  shows "(d * d = 0 \<or> 2 powi (- 1000) \<le> d * d) \<and> d * d \<le> 2 ^ 1000"
proof -
  have m1: "d = 0 \<or> 2 powi (- 500) \<le> \<bar>d\<bar>" and m2: "\<bar>d\<bar> \<le> 2 ^ 500"
    using assms by (simp_all add: moderate_def)
  have dd: "\<bar>d\<bar> * \<bar>d\<bar> = d * d" by simp
  have lo: "d * d = 0 \<or> 2 powi (- 1000) \<le> d * d"
  proof (cases "d = 0")
    case True
    then show ?thesis by simp
  next
    case False
    then have "2 powi (- 500) \<le> \<bar>d\<bar>" using m1 by simp
    then have "2 powi (- 500) * 2 powi (- 500) \<le> \<bar>d\<bar> * \<bar>d\<bar>"
      by (intro mult_mono) simp_all
    moreover have "(2::real) powi (- 500) * 2 powi (- 500) = 2 powi (- 1000)"
      by (simp add: power_int_add [symmetric])
    ultimately show ?thesis using dd by simp
  qed
  have "\<bar>d\<bar> * \<bar>d\<bar> \<le> 2 ^ 500 * 2 ^ 500" using m2 by (intro mult_mono) simp_all
  moreover have "(2::real) ^ 500 * 2 ^ 500 = 2 ^ 1000" by (simp add: power_add [symmetric])
  ultimately have "d * d \<le> 2 ^ 1000" using dd by simp
  with lo show ?thesis by simp
qed

lemma sqrt_range:
  assumes "s = 0 \<or> l \<le> s" "s \<le> h" "0 < l" "l \<le> 1" "1 \<le> h"
  shows "(sqrt s = 0 \<or> l \<le> sqrt s) \<and> sqrt s \<le> h"
proof -
  have s0: "0 \<le> s" using assms(1,3) by auto
  have "sqrt s \<le> sqrt h" using assms(2) by simp
  moreover have "sqrt h \<le> h"
  proof -
    have "h \<le> h\<^sup>2" using assms(5) by (simp add: power2_eq_square)
    then have "sqrt h \<le> sqrt (h\<^sup>2)" by (simp only: real_sqrt_le_iff)
    then show ?thesis using assms(5) by simp
  qed
  ultimately have hi: "sqrt s \<le> h" by (rule order_trans)
  have "sqrt s = 0 \<or> l \<le> sqrt s"
  proof (cases "s = 0")
    case True
    then show ?thesis by simp
  next
    case False
    then have "l \<le> s" using assms(1) by simp
    then have ls: "sqrt l \<le> sqrt s" by simp
    have "l \<le> sqrt l"
    proof -
      have "l\<^sup>2 \<le> l" using assms(3,4) by (simp add: power2_eq_square mult_left_le)
      then have "sqrt (l\<^sup>2) \<le> sqrt l" by (simp only: real_sqrt_le_iff)
      then show ?thesis using assms(3) by simp
    qed
    then have "l \<le> sqrt s" using ls by (rule order_trans)
    then show ?thesis by blast
  qed
  with hi show ?thesis by blast
qed

lemma moderate_nonneg_range:
  assumes "moderate x" "0 \<le> x"
  shows "(x = 0 \<or> 2 powi (- 500) \<le> x) \<and> x \<le> 2 ^ 500"
  using assms by (simp add: moderate_def)

text \<open>
  The mean of two moderate numbers in binary64 arithmetic is within two roundings of their
  mean.
\<close>

lemma mean_near:
  assumes "moderate a" "moderate b" "0 \<le> a" "0 \<le> b"
  shows "\<exists>m. jsDivBy double (jsAdd double (Num a) (Num b)) 2 = Num m \<and> nearBy 2 ((a + b) / 2) m"
proof -
  have ra: "(a = 0 \<or> 2 powi (- 500) \<le> a) \<and> a \<le> 2 ^ 500" using assms(1,3) by (simp add: moderate_def)
  have rb: "(b = 0 \<or> 2 powi (- 500) \<le> b) \<and> b \<le> 2 ^ 500" using assms(2,4) by (simp add: moderate_def)
  have pos: "0 \<le> a + b" using assms(3,4) by simp
  have lo: "a + b = 0 \<or> 2 powi (- 500) \<le> a + b" using ra rb assms(3,4) by linarith
  have hi: "a + b \<le> 2 * 2 ^ 500" using ra rb by linarith
  have tiny: "(2::real) powi (- 1022) \<le> 2 powi (- 500)" by (intro power_int_increasing) simp_all
  have big: "(2::real) * 2 ^ 500 \<le> 2 ^ 1023"
  proof -
    have "(2::real) * 2 ^ 500 = 2 ^ 501" by simp
    moreover have "(2::real) ^ 501 \<le> 2 ^ 1023" by (intro power_increasing) simp_all
    ultimately show ?thesis by simp
  qed
  have c1: "a + b = 0 \<or> 2 powi (- 1022) \<le> a + b" using lo tiny by linarith
  have c2: "a + b \<le> 2 ^ 1023" using hi big by linarith
  obtain s where s: "double (a + b) = Num s" and ns: "nearBy (Suc 0) (a + b) s"
    using double_nearBy [OF pos nearBy_refl c1 c2] by blast
  have nh: "nearBy (Suc 0) ((a + b) / 2) (s / 2)" using ns by (rule nearBy_scale) simp
  have lo2: "(a + b) / 2 = 0 \<or> 2 powi (- 501) \<le> (a + b) / 2"
  proof -
    have "(2::real) powi (- 500) / 2 = 2 powi (- 501)" by (simp add: power_int_diff)
    then show ?thesis using lo by auto
  qed
  have hi2: "(a + b) / 2 \<le> 2 ^ 500" using hi by simp
  have "(s / 2 = 0 \<or> 2 powi (- 501) / 2 \<le> s / 2) \<and> s / 2 \<le> 2 * 2 ^ 500"
    using nh _ lo2 hi2 by (rule nearBy_range) simp_all
  moreover have "(2::real) powi (- 501) / 2 = 2 powi (- 502)" by (simp add: power_int_diff)
  moreover have "(2::real) powi (- 1022) \<le> 2 powi (- 502)" by (intro power_int_increasing) simp_all
  ultimately have d1: "s / 2 = 0 \<or> 2 powi (- 1022) \<le> s / 2" and d2: "s / 2 \<le> 2 ^ 1023"
    using big by auto
  have "0 \<le> (a + b) / 2" using pos by simp
  then obtain m where m: "double (s / 2) = Num m" and nm: "nearBy (Suc (Suc 0)) ((a + b) / 2) m"
    using double_nearBy [OF _ nh d1 d2] by blast
  have "jsDivBy double (jsAdd double (Num a) (Num b)) 2 = Num m" using s m by simp
  moreover have "nearBy 2 ((a + b) / 2) m" using nm by (simp add: numeral_2_eq_2)
  ultimately show ?thesis by blast
qed

section \<open>Properties of the statistics aggregator\<close>

lemma elem_nth: "i < length xs \<Longrightarrow> elem xs (int i) = Num (xs ! i)"
  by (simp add: elem_def index_def)

lemma foldl_exact:
  "foldl (\<lambda>sum val. jsAdd exact sum (Num val)) (Num a) xs = Num (a + sum_list xs)"
  by (induction xs arbitrary: a) (simp_all add: exact_def)

text \<open>On a non-empty list every array read of \<open>calculateStats\<close> is inside the array.\<close>

lemma calculateStats_nonempty:
  assumes "deltas \<noteq> []"
  defines "s \<equiv> sort deltas"
  shows "calculateStats rnd deltas =
     (\<lparr>min_stat = Num (s ! 0),
       mean = jsDivBy rnd (foldl (\<lambda>sum val. jsAdd rnd sum (Num val)) (Num 0) s) (length s),
       median = (if even (length s)
                 then jsDivBy rnd (jsAdd rnd (Num (s ! (length s div 2 - 1))) (Num (s ! (length s div 2)))) 2
                 else Num (s ! (length s div 2))),
       max_stat = Num (s ! (length s - 1))\<rparr>, s)"
proof -
  have n: "0 < length s" using assms by simp
  have e0: "elem s 0 = Num (s ! 0)" using elem_nth [of 0 s] n by simp
  have e1: "elem s (int (length s) - 1) = Num (s ! (length s - 1))"
    using elem_nth [of "length s - 1" s] n by (simp add: of_nat_diff)
  have e2: "elem s (int (length s) div 2) = Num (s ! (length s div 2))"
    using elem_nth [of "length s div 2" s] n by (simp add: zdiv_int)
  have e3: "even (length s) \<Longrightarrow> elem s (int (length s) div 2 - 1) = Num (s ! (length s div 2 - 1))"
  proof -
    assume ev: "even (length s)"
    then have "length s \<noteq> 1" by auto
    with n have "2 \<le> length s" by arith
    then have "1 \<le> length s div 2" by simp
    then have "int (length s) div 2 - 1 = int (length s div 2 - 1)"
      by (simp add: zdiv_int of_nat_diff)
    moreover have "length s div 2 - 1 < length s" using n by arith
    ultimately show ?thesis using elem_nth [of "length s div 2 - 1" s] by simp
  qed
  have par: "(int (length s) mod 2 = 0) = even (length s)"
    by presburger
  show ?thesis
    using assms(1) e0 e1 e2 e3 par
    unfolding calculateStats_def s_def [symmetric] Let_def
    by (auto simp add: s_def)
qed

lemma calculateStats_median_middle:
  assumes "deltas \<noteq> []" "sorted s" "mset s = mset deltas"
  shows "median (fst (calculateStats rnd deltas)) = middle_of rnd s"
proof -
  have "sort deltas = s" using assms by (simp add: properties_for_sort)
  then show ?thesis using assms(1) by (simp add: calculateStats_nonempty middle_of_def)
qed

lemma sum_list_lower: "(\<And>x. x \<in> set xs \<Longrightarrow> a \<le> x) \<Longrightarrow> a * real (length xs) \<le> sum_list xs"
  by (induction xs) (auto simp add: algebra_simps add_mono)

lemma sum_list_upper: "(\<And>x. x \<in> set xs \<Longrightarrow> x \<le> b) \<Longrightarrow> sum_list xs \<le> b * real (length xs)"
  by (induction xs) (auto simp add: algebra_simps add_mono)

lemma sorted_first_le: "sorted s \<Longrightarrow> i < length s \<Longrightarrow> s ! 0 \<le> s ! i"
  by (simp add: sorted_nth_mono)

lemma sorted_le_last: "sorted s \<Longrightarrow> i < length s \<Longrightarrow> s ! i \<le> s ! (length s - 1)"
  by (rule sorted_nth_mono) auto

text \<open>
  The sum that \<open>deltas.reduce\<close> accumulates over moderate numbers is within one rounding
  for each element of their sum; the mean is within one rounding more of their mean, and
  so between the minimum and the maximum up to these roundings. The median is within two
  roundings of the median of the mathematics.
\<close>

lemma sum_list_nonneg_zero:
  fixes xs :: "real list"
  assumes "\<forall>x \<in> set xs. (x = 0 \<or> l \<le> x)" "0 \<le> l" "a = 0 \<or> l \<le> a"
  shows "a + sum_list xs = 0 \<or> l \<le> a + sum_list xs"
  using assms
proof (induction xs arbitrary: a)
  case Nil
  then show ?case by simp
next
  case (Cons x xs)
  have a0: "0 \<le> a" using Cons.prems(2,3) by auto
  have rx: "x = 0 \<or> l \<le> x" using Cons.prems(1) by simp
  then have x0: "0 \<le> x" using Cons.prems(2) by auto
  have "a + x = 0 \<or> l \<le> a + x" using Cons.prems(3) rx a0 x0 by linarith
  then have "(a + x) + sum_list xs = 0 \<or> l \<le> (a + x) + sum_list xs"
    using Cons.IH [of "a + x"] Cons.prems by simp
  then show ?case by (simp add: add.assoc)
qed

lemma sum_near:
  assumes "\<forall>x \<in> set xs. moderate x \<and> 0 \<le> x"
    and "nearBy k A S" and "A = 0 \<or> 2 powi (- 500) \<le> A"
    and "A + sum_list xs \<le> 2 ^ 1000" and "k + length xs \<le> 2 ^ 52"
  shows "\<exists>S'. foldl (\<lambda>sum val. jsAdd double sum (Num val)) (Num S) xs = Num S'
           \<and> nearBy (k + length xs) (A + sum_list xs) S'"
  using assms
proof (induction xs arbitrary: k A S)
  case Nil
  then show ?case by simp
next
  case (Cons x xs)
  have mx: "moderate x" and x0: "0 \<le> x" using Cons.prems(1) by simp_all
  have rx: "x = 0 \<or> 2 powi (- 500) \<le> x" using mx x0 by (simp add: moderate_def)
  have rest: "0 \<le> sum_list xs" using Cons.prems(1) by (intro sum_list_nonneg) simp
  have A0: "0 \<le> A" using Cons.prems(3) by auto
  have k52: "k \<le> 2 ^ 52" using Cons.prems(5) by simp
  have nx: "nearBy k x x" using nearBy_refl _ x0 by (rule nearBy_weaken) simp
  have nsum: "nearBy k (A + x) (S + x)" using Cons.prems(2) nx by (rule nearBy_add)
  have lo: "A + x = 0 \<or> 2 powi (- 500) \<le> A + x" using Cons.prems(3) rx A0 x0 by linarith
  have hi: "A + x \<le> 2 ^ 1000" using Cons.prems(4) rest by simp
  have "(S + x = 0 \<or> 2 powi (- 500) / 2 \<le> S + x) \<and> S + x \<le> 2 * 2 ^ 1000"
    using nsum k52 lo hi by (rule nearBy_range) simp
  moreover have "(2::real) powi (- 500) / 2 = 2 powi (- 501)" by (simp add: power_int_diff)
  moreover have "(2::real) powi (- 1022) \<le> 2 powi (- 501)" by (intro power_int_increasing) simp_all
  moreover have "(2::real) * 2 ^ 1000 \<le> 2 ^ 1023"
  proof -
    have "(2::real) * 2 ^ 1000 = 2 ^ 1001" by simp
    moreover have "(2::real) ^ 1001 \<le> 2 ^ 1023" by (intro power_increasing) simp_all
    ultimately show ?thesis by simp
  qed
  ultimately have c1: "S + x = 0 \<or> 2 powi (- 1022) \<le> S + x" and c2: "S + x \<le> 2 ^ 1023"
    by auto
  have "0 \<le> A + x" using A0 x0 by simp
  then obtain S1 where S1: "double (S + x) = Num S1" and n1: "nearBy (Suc k) (A + x) S1"
    using double_nearBy [OF _ nsum c1 c2] by blast
  have p1: "\<forall>y \<in> set xs. moderate y \<and> 0 \<le> y" using Cons.prems(1) by simp
  have p4: "(A + x) + sum_list xs \<le> 2 ^ 1000" using Cons.prems(4) by (simp add: add.assoc)
  have p5: "Suc k + length xs \<le> 2 ^ 52" using Cons.prems(5) by simp
  obtain S' where f: "foldl (\<lambda>sum val. jsAdd double sum (Num val)) (Num S1) xs = Num S'"
    and n: "nearBy (Suc k + length xs) ((A + x) + sum_list xs) S'"
    using Cons.IH [OF p1 n1 lo p4 p5] by blast
  have "foldl (\<lambda>sum val. jsAdd double sum (Num val)) (Num S) (x # xs) = Num S'"
    using S1 f by simp
  moreover have "nearBy (k + length (x # xs)) (A + sum_list (x # xs)) S'"
    using n by (simp add: add.assoc)
  ultimately show ?case by blast
qed

lemma calculateStats_mean_near:
  assumes "deltas \<noteq> []" "length deltas < 2 ^ 52" "\<forall>x \<in> set deltas. moderate x \<and> 0 \<le> x"
  shows "\<exists>lo hi m. min_stat (fst (calculateStats double deltas)) = Num lo
           \<and> max_stat (fst (calculateStats double deltas)) = Num hi
           \<and> mean (fst (calculateStats double deltas)) = Num m
           \<and> lo * (1 - unitRoundoff) ^ (length deltas + 1) \<le> m
           \<and> m \<le> hi * (1 + unitRoundoff) ^ (length deltas + 1)"
proof -
  define s where "s = sort deltas"
  define n where "n = length s"
  have srt: "sorted s" by (simp add: s_def)
  have n0: "0 < n" using assms(1) by (simp add: s_def n_def)
  have nl: "n = length deltas" by (simp add: s_def n_def)
  have el: "\<forall>x \<in> set s. moderate x \<and> 0 \<le> x" using assms(3) by (simp add: s_def)
  have rg: "\<And>x. x \<in> set s \<Longrightarrow> (x = 0 \<or> 2 powi (- 500) \<le> x) \<and> x \<le> 2 ^ 500"
    using el moderate_nonneg_range by blast
  have lo: "\<And>i. i < length s \<Longrightarrow> s ! 0 \<le> s ! i" using srt by (rule sorted_first_le)
  have hi: "\<And>i. i < length s \<Longrightarrow> s ! i \<le> s ! (length s - 1)" using srt by (rule sorted_le_last)
  have "\<And>x. x \<in> set s \<Longrightarrow> s ! 0 \<le> x"
    using lo by (auto simp add: in_set_conv_nth)
  then have "s ! 0 * real (length s) \<le> sum_list s" by (rule sum_list_lower)
  then have mean_lo: "s ! 0 \<le> sum_list s / real n"
    using n0 by (simp add: pos_le_divide_eq n_def)
  have "\<And>x. x \<in> set s \<Longrightarrow> x \<le> s ! (length s - 1)"
    using hi by (auto simp add: in_set_conv_nth)
  then have "sum_list s \<le> s ! (length s - 1) * real (length s)" by (rule sum_list_upper)
  then have mean_hi: "sum_list s / real n \<le> s ! (n - 1)"
    using n0 by (simp add: pos_divide_le_eq n_def)
  have first: "s ! 0 \<in> set s" and last: "s ! (n - 1) \<in> set s" using n0 by (simp_all add: n_def)
  have min0: "0 \<le> s ! 0" using el first by blast
  have max500: "s ! (n - 1) \<le> 2 ^ 500" using rg [OF last] by simp
  have sum0: "0 \<le> sum_list s" using el by (intro sum_list_nonneg) simp
  have "sum_list s \<le> 2 ^ 500 * real (length s)" using rg by (intro sum_list_upper) simp
  also have "\<dots> \<le> 2 ^ 500 * 2 ^ 52"
  proof -
    have "real (length s) \<le> real (2 ^ 52)" using assms(2) nl by (simp add: n_def)
    then show ?thesis by (intro mult_left_mono) simp_all
  qed
  also have "\<dots> \<le> (2::real) ^ 1000"
  proof -
    have "(2::real) ^ 500 * 2 ^ 52 = 2 ^ 552" by (simp add: power_add [symmetric])
    moreover have "(2::real) ^ 552 \<le> 2 ^ 1000" by (intro power_increasing) simp_all
    ultimately show ?thesis by simp
  qed
  finally have sumhi: "0 + sum_list s \<le> 2 ^ 1000" by simp
  have k: "0 + length s \<le> 2 ^ 52" using assms(2) nl by (simp add: n_def)
  obtain S where f: "foldl (\<lambda>sum val. jsAdd double sum (Num val)) (Num 0) s = Num S"
    and nS: "nearBy (0 + length s) (0 + sum_list s) S"
    using sum_near [OF el nearBy_refl _ sumhi k] by blast
  have nq: "nearBy n (sum_list s / real n) (S / real n)"
    using nS by (intro nearBy_scale) (simp_all add: n_def)
  have slo: "sum_list s = 0 \<or> 2 powi (- 500) \<le> sum_list s"
    using sum_list_nonneg_zero [of s "2 powi (- 500)" 0] rg by simp
  have qlo: "sum_list s / real n = 0 \<or> 2 powi (- 552) \<le> sum_list s / real n"
  proof (cases "sum_list s = 0")
    case True
    then show ?thesis by simp
  next
    case False
    then have a: "2 powi (- 500) \<le> sum_list s" using slo by simp
    have "real n \<le> 2 ^ 52" using k by (simp add: n_def)
    then have "2 powi (- 552) * real n \<le> 2 powi (- 552) * 2 ^ 52"
      by (intro mult_left_mono) simp_all
    also have "\<dots> = (2::real) powi (- 500)" by (simp add: power_int_minus_divide)
    finally have "2 powi (- 552) * real n \<le> sum_list s" using a by simp
    then show ?thesis using n0 by (simp add: pos_le_divide_eq)
  qed
  have qhi: "sum_list s / real n \<le> 2 ^ 500" using mean_hi max500 by simp
  have n52: "n \<le> 2 ^ 52" using k by (simp add: n_def)
  define q where "q = S / real n"
  have "(q = 0 \<or> 2 powi (- 552) / 2 \<le> q) \<and> q \<le> 2 * 2 ^ 500"
    unfolding q_def using nq n52 qlo qhi by (rule nearBy_range) simp
  moreover have "(2::real) powi (- 552) / 2 = 2 powi (- 553)" by (simp add: power_int_diff)
  moreover have "(2::real) powi (- 1022) \<le> 2 powi (- 553)" by (intro power_int_increasing) simp_all
  moreover have "(2::real) * 2 ^ 500 \<le> 2 ^ 1023"
  proof -
    have "(2::real) * 2 ^ 500 = 2 ^ 501" by simp
    moreover have "(2::real) ^ 501 \<le> 2 ^ 1023" by (intro power_increasing) simp_all
    ultimately show ?thesis by simp
  qed
  ultimately have "q = 0 \<or> 2 powi (- 1022) \<le> q" and "q \<le> 2 ^ 1023" by auto
  then have c1: "S / real n = 0 \<or> 2 powi (- 1022) \<le> S / real n"
    and c2: "S / real n \<le> 2 ^ 1023" by (simp_all only: q_def)
  have q0: "0 \<le> sum_list s / real n" using sum0 by simp
  obtain m where m: "double (S / real n) = Num m" and nm: "nearBy (Suc n) (sum_list s / real n) m"
    using double_nearBy [OF q0 nq c1 c2] by blast
  have mean_eq: "mean (fst (calculateStats double deltas)) = Num m"
    using f m n0 by (simp add: calculateStats_nonempty [OF assms(1)] s_def [symmetric] n_def)
  have min_eq: "min_stat (fst (calculateStats double deltas)) = Num (s ! 0)"
    by (simp add: calculateStats_nonempty [OF assms(1)] s_def [symmetric])
  have max_eq: "max_stat (fst (calculateStats double deltas)) = Num (s ! (n - 1))"
    by (simp add: calculateStats_nonempty [OF assms(1)] s_def [symmetric] n_def)
  have "s ! 0 * (1 - unitRoundoff) ^ Suc n \<le> sum_list s / real n * (1 - unitRoundoff) ^ Suc n"
    using mean_lo u_bounds by (intro mult_right_mono) simp_all
  then have b1: "s ! 0 * (1 - unitRoundoff) ^ (length deltas + 1) \<le> m"
    using nm by (simp add: nearBy_def nl)
  have "sum_list s / real n * (1 + unitRoundoff) ^ Suc n \<le> s ! (n - 1) * (1 + unitRoundoff) ^ Suc n"
    using mean_hi u_bounds by (intro mult_right_mono) simp_all
  then have b2: "m \<le> s ! (n - 1) * (1 + unitRoundoff) ^ (length deltas + 1)"
    using nm by (simp add: nearBy_def nl)
  show ?thesis using min_eq max_eq mean_eq b1 b2 by blast
qed

lemma calculateStats_median_near:
  assumes "deltas \<noteq> []" "sorted s" "mset s = mset deltas" "\<forall>x \<in> set deltas. moderate x \<and> 0 \<le> x"
  shows "\<exists>m. median (fst (calculateStats double deltas)) = Num m \<and> nearBy 2 (middle_real s) m"
proof -
  have med: "median (fst (calculateStats double deltas)) = middle_of double s"
    using assms(1,2,3) by (rule calculateStats_median_middle)
  have st: "set s = set deltas" using assms(3) by (metis set_mset_mset)
  have n: "0 < length s" using assms(1,3) by (metis length_greater_0_conv mset.simps(1) mset_eq_setD set_empty st)
  have mid: "length s div 2 < length s" using n by simp
  have mid1: "length s div 2 - 1 < length s" using n by arith
  have a: "moderate (s ! (length s div 2 - 1)) \<and> 0 \<le> s ! (length s div 2 - 1)"
    using assms(4) st nth_mem [OF mid1] by blast
  have b: "moderate (s ! (length s div 2)) \<and> 0 \<le> s ! (length s div 2)"
    using assms(4) st nth_mem [OF mid] by blast
  show ?thesis
  proof (cases "odd (length s)")
    case True
    have "nearBy 2 (s ! (length s div 2)) (s ! (length s div 2))"
      using nearBy_refl by (rule nearBy_weaken) (use b in simp_all)
    then show ?thesis using med True by (simp add: middle_of_def middle_real_def)
  next
    case False
    obtain m where "jsDivBy double (jsAdd double (Num (s ! (length s div 2 - 1))) (Num (s ! (length s div 2)))) 2 = Num m"
      and "nearBy 2 ((s ! (length s div 2 - 1) + s ! (length s div 2)) / 2) m"
      using mean_near [of "s ! (length s div 2 - 1)" "s ! (length s div 2)"] a b by blast
    then show ?thesis using med False by (simp add: middle_of_def middle_real_def)
  qed
qed

subsection \<open>The empty delta list\<close>

text \<open>
  C3: for the empty list \<open>calculateStats\<close> returns min, mean, median and max all equal
  to the number 0 (a number, neither \<open>NaN\<close> nor \<open>undefined\<close>), whatever the rounding of
  the arithmetic, and leaves the list as it is; the function has no raising branch.
\<close>

theorem calculateStats_empty:
  "calculateStats rnd [] =
     (\<lparr>min_stat = Num 0, mean = Num 0, median = Num 0, max_stat = Num 0\<rparr>, [])"
  by (simp add: calculateStats_def)

subsection \<open>The median\<close>

lemma double_five_halves: "double (5 / 2) = Num (5 / 2)"
  by code_simp

text \<open>
  C4: for a non-empty list of deltas, whatever the rounding of the arithmetic, the median
  that \<open>calculateStats\<close> returns is the median of the specification taken on the
  ascending arrangement \<open>s\<close> of the deltas: the middle element for odd length, and for
  even length the arithmetic mean of the two middle elements as the arithmetic computes
  it, their sum divided by 2. In exact arithmetic that is the median of the mathematics.
  In binary64 arithmetic it is the median of the mathematics whenever that median is a
  binary64 number below \<open>2 ^ 1023\<close> in magnitude, so that the sum of the two middle
  elements is a binary64 number too, and on moderate deltas that are not below zero it is
  within two roundings of the median of the mathematics. The median of [1,2,3,4] is 2.5
  and the median of [1,2,3] is 2, in binary64 and in exact arithmetic.
\<close>

theorem calculateStats_median:
  "(deltas \<noteq> [] \<and> sorted s \<and> mset s = mset deltas \<longrightarrow>
      median (fst (calculateStats rnd deltas)) = middle_of rnd s)
   \<and> (deltas \<noteq> [] \<and> sorted s \<and> mset s = mset deltas \<longrightarrow>
      median (fst (calculateStats exact deltas)) = Num (middle_real s))
   \<and> (deltas \<noteq> [] \<and> sorted s \<and> mset s = mset deltas
      \<and> double (middle_real s) = Num (middle_real s) \<and> \<bar>middle_real s\<bar> < 2 ^ 1023 \<longrightarrow>
      median (fst (calculateStats double deltas)) = Num (middle_real s))
   \<and> (deltas \<noteq> [] \<and> sorted s \<and> mset s = mset deltas
      \<and> (\<forall>x \<in> set deltas. moderate x \<and> 0 \<le> x) \<longrightarrow>
      (\<exists>m. median (fst (calculateStats double deltas)) = Num m \<and> nearBy 2 (middle_real s) m))
   \<and> median (fst (calculateStats double [1, 2, 3, 4])) = Num (5 / 2)
   \<and> median (fst (calculateStats double [1, 2, 3])) = Num 2
   \<and> median (fst (calculateStats exact [1, 2, 3, 4])) = Num (5 / 2)
   \<and> median (fst (calculateStats exact [1, 2, 3])) = Num 2"
proof (intro conjI impI)
  assume a: "deltas \<noteq> [] \<and> sorted s \<and> mset s = mset deltas"
  then show "median (fst (calculateStats rnd deltas)) = middle_of rnd s"
    by (simp add: calculateStats_median_middle)
next
  assume a: "deltas \<noteq> [] \<and> sorted s \<and> mset s = mset deltas"
  then have "median (fst (calculateStats exact deltas)) = middle_of exact s"
    by (simp add: calculateStats_median_middle)
  then show "median (fst (calculateStats exact deltas)) = Num (middle_real s)"
    by (simp add: middle_of_def middle_real_def exact_def)
next
  assume a: "deltas \<noteq> [] \<and> sorted s \<and> mset s = mset deltas
      \<and> double (middle_real s) = Num (middle_real s) \<and> \<bar>middle_real s\<bar> < 2 ^ 1023"
  then have m: "median (fst (calculateStats double deltas)) = middle_of double s"
    by (simp add: calculateStats_median_middle)
  show "median (fst (calculateStats double deltas)) = Num (middle_real s)"
  proof (cases "odd (length s)")
    case True
    then show ?thesis using m by (simp add: middle_of_def middle_real_def)
  next
    case False
    have "s ! (length s div 2 - 1) + s ! (length s div 2) = 2 * middle_real s"
      using False by (simp add: middle_real_def)
    with a have "jsDivBy double (jsAdd double (Num (s ! (length s div 2 - 1))) (Num (s ! (length s div 2)))) 2
        = Num (middle_real s)"
      by (intro double_mean_exact) simp_all
    then show ?thesis using m False by (simp add: middle_of_def)
  qed
next
  assume a: "deltas \<noteq> [] \<and> sorted s \<and> mset s = mset deltas
      \<and> (\<forall>x \<in> set deltas. moderate x \<and> 0 \<le> x)"
  then show "\<exists>m. median (fst (calculateStats double deltas)) = Num m \<and> nearBy 2 (middle_real s) m"
    by (intro calculateStats_median_near) simp_all
next
  show "median (fst (calculateStats double [1, 2, 3, 4])) = Num (5 / 2)"
    by code_simp
next
  show "median (fst (calculateStats double [1, 2, 3])) = Num 2"
    by code_simp
next
  show "median (fst (calculateStats exact [1, 2, 3, 4])) = Num (5 / 2)"
    by (simp add: calculateStats_nonempty exact_def)
next
  show "median (fst (calculateStats exact [1, 2, 3])) = Num 2"
    by (simp add: calculateStats_nonempty exact_def)
qed

theorem calculateStats_median_witness:
  "[4, 1, 3, 2] \<noteq> ([] :: real list) \<and> sorted [1, 2, 3, 4 :: real]
   \<and> mset [1, 2, 3, 4 :: real] = mset [4, 1, 3, 2]
   \<and> double (middle_real [1, 2, 3, 4]) = Num (middle_real [1, 2, 3, 4])
   \<and> \<bar>middle_real [1, 2, 3, 4]\<bar> < 2 ^ 1023
   \<and> moderate 1 \<and> moderate 2 \<and> moderate 3 \<and> moderate 4
   \<and> median (fst (calculateStats double [4, 1, 3, 2])) = Num (5 / 2)
   \<and> (\<exists>m. median (fst (calculateStats double [4, 1, 3, 2])) = Num m \<and> nearBy 2 (5 / 2) m)"
proof -
  have m: "middle_real [1, 2, 3, 4] = 5 / 2" by (simp add: middle_real_def)
  have h: "[4, 1, 3, 2] \<noteq> ([] :: real list) \<and> sorted [1, 2, 3, 4 :: real]
      \<and> mset [1, 2, 3, 4 :: real] = mset [4, 1, 3, 2]"
    by simp
  have g: "double (middle_real [1, 2, 3, 4]) = Num (middle_real [1, 2, 3, 4])
      \<and> \<bar>middle_real [1, 2, 3, 4]\<bar> < 2 ^ 1023"
    unfolding m by (simp add: double_five_halves)
  have md: "moderate 1 \<and> moderate 2 \<and> moderate 3 \<and> moderate 4"
    by (simp add: moderate_def power_int_minus_divide)
  then have r: "\<forall>x \<in> set [4, 1, 3, 2]. moderate x \<and> 0 \<le> x" by simp
  from calculateStats_median [of "[4, 1, 3, 2]" "[1, 2, 3, 4]" double] h g r
  have "median (fst (calculateStats double [4, 1, 3, 2])) = Num (middle_real [1, 2, 3, 4])
      \<and> (\<exists>m. median (fst (calculateStats double [4, 1, 3, 2])) = Num m
            \<and> nearBy 2 (middle_real [1, 2, 3, 4]) m)"
    by blast
  then show ?thesis using h g md unfolding m by blast
qed

text \<open>
  Where the median of the mathematics is not a binary64 number the two differ: of 1 and
  its successor \<open>1 + 2 ^ -52\<close> the median in binary64 arithmetic is 1.
\<close>

lemma calculateStats_double_rounded_median:
  "median (fst (calculateStats double [1, 1 + 1 / 2 ^ 52])) = Num 1"
  "middle_real [1, 1 + 1 / 2 ^ 52] = 1 + 1 / 2 ^ 53"
proof -
  show "median (fst (calculateStats double [1, 1 + 1 / 2 ^ 52])) = Num 1"
    by code_simp
  show "middle_real [1, 1 + 1 / 2 ^ 52] = 1 + 1 / 2 ^ 53"
    by (simp add: middle_real_def)
qed

subsection \<open>The order of the four statistics\<close>

lemma calculateStats_bounds_exact:
  assumes "deltas \<noteq> []"
  shows "jsLe (min_stat (fst (calculateStats exact deltas))) (median (fst (calculateStats exact deltas)))
       \<and> jsLe (median (fst (calculateStats exact deltas))) (max_stat (fst (calculateStats exact deltas)))
       \<and> jsLe (min_stat (fst (calculateStats exact deltas))) (mean (fst (calculateStats exact deltas)))
       \<and> jsLe (mean (fst (calculateStats exact deltas))) (max_stat (fst (calculateStats exact deltas)))"
proof -
  define s where "s = sort deltas"
  have srt: "sorted s" by (simp add: s_def)
  have n: "0 < length s" using assms by (simp add: s_def)
  have lo: "\<And>i. i < length s \<Longrightarrow> s ! 0 \<le> s ! i" using srt by (rule sorted_first_le)
  have hi: "\<And>i. i < length s \<Longrightarrow> s ! i \<le> s ! (length s - 1)" using srt by (rule sorted_le_last)
  have mid: "length s div 2 < length s" using n by simp
  have mid1: "length s div 2 - 1 < length s" using n by arith
  have med_odd: "s ! 0 \<le> s ! (length s div 2) \<and> s ! (length s div 2) \<le> s ! (length s - 1)"
    using lo [OF mid] hi [OF mid] by simp
  have med_even: "s ! 0 \<le> (s ! (length s div 2 - 1) + s ! (length s div 2)) / 2
      \<and> (s ! (length s div 2 - 1) + s ! (length s div 2)) / 2 \<le> s ! (length s - 1)"
    using lo [OF mid] hi [OF mid] lo [OF mid1] hi [OF mid1] by simp
  have "\<And>x. x \<in> set s \<Longrightarrow> s ! 0 \<le> x"
    using lo by (auto simp add: in_set_conv_nth)
  then have "s ! 0 * real (length s) \<le> sum_list s" by (rule sum_list_lower)
  then have mean_lo: "s ! 0 \<le> sum_list s / real (length s)"
    using n by (simp add: pos_le_divide_eq)
  have "\<And>x. x \<in> set s \<Longrightarrow> x \<le> s ! (length s - 1)"
    using hi by (auto simp add: in_set_conv_nth)
  then have "sum_list s \<le> s ! (length s - 1) * real (length s)" by (rule sum_list_upper)
  then have mean_hi: "sum_list s / real (length s) \<le> s ! (length s - 1)"
    using n by (simp add: pos_divide_le_eq)
  have mean_eq: "jsDivBy exact (foldl (\<lambda>sum val. jsAdd exact sum (Num val)) (Num 0) s) (length s)
      = Num (sum_list s / real (length s))"
    using n by (simp add: foldl_exact exact_def)
  have med_eq: "jsDivBy exact (jsAdd exact (Num (s ! (length s div 2 - 1))) (Num (s ! (length s div 2)))) 2
      = Num ((s ! (length s div 2 - 1) + s ! (length s div 2)) / 2)"
    by (simp add: exact_def)
  show ?thesis
    using med_odd med_even mean_lo mean_hi mean_eq med_eq
    by (simp add: calculateStats_nonempty [OF assms] s_def [symmetric])
qed

lemma calculateStats_median_bounds_double:
  assumes "deltas \<noteq> []" and "\<forall>x \<in> set deltas. 0 \<le> x \<and> x < 2 ^ 1023 \<and> double x = Num x"
  shows "jsLe (min_stat (fst (calculateStats double deltas))) (median (fst (calculateStats double deltas)))
       \<and> jsLe (median (fst (calculateStats double deltas))) (max_stat (fst (calculateStats double deltas)))"
proof -
  define s where "s = sort deltas"
  have srt: "sorted s" by (simp add: s_def)
  have n: "0 < length s" using assms(1) by (simp add: s_def)
  have el: "0 \<le> s ! i \<and> s ! i < 2 ^ 1023 \<and> double (s ! i) = Num (s ! i)" if "i < length s" for i
  proof -
    from that have "s ! i \<in> set s" by (rule nth_mem)
    then have "s ! i \<in> set deltas" by (simp add: s_def)
    then show ?thesis using assms(2) by blast
  qed
  have lo: "\<And>i. i < length s \<Longrightarrow> s ! 0 \<le> s ! i" using srt by (rule sorted_first_le)
  have hi: "\<And>i. i < length s \<Longrightarrow> s ! i \<le> s ! (length s - 1)" using srt by (rule sorted_le_last)
  have mid: "length s div 2 < length s" using n by simp
  have mid1: "length s div 2 - 1 < length s" using n by arith
  have ab: "s ! (length s div 2 - 1) \<le> s ! (length s div 2)"
    using srt mid by (intro sorted_nth_mono) simp_all
  have "\<exists>w. jsDivBy double (jsAdd double (Num (s ! (length s div 2 - 1))) (Num (s ! (length s div 2)))) 2 = Num w
      \<and> s ! (length s div 2 - 1) \<le> w \<and> w \<le> s ! (length s div 2)"
    using el [OF mid1] el [OF mid] ab by (intro double_mean_between) simp_all
  then obtain w where
    w: "jsDivBy double (jsAdd double (Num (s ! (length s div 2 - 1))) (Num (s ! (length s div 2)))) 2 = Num w"
    and wlo: "s ! (length s div 2 - 1) \<le> w" and whi: "w \<le> s ! (length s div 2)"
    by blast
  have med_even: "s ! 0 \<le> w \<and> w \<le> s ! (length s - 1)"
    using wlo whi lo [OF mid1] hi [OF mid] by linarith
  have med_odd: "s ! 0 \<le> s ! (length s div 2) \<and> s ! (length s div 2) \<le> s ! (length s - 1)"
    using lo [OF mid] hi [OF mid] by simp
  show ?thesis
    using med_odd med_even w
    by (simp add: calculateStats_nonempty [OF assms(1)] s_def [symmetric])
qed

text \<open>
  Without the bound the sum of the two middle elements can overflow: the median of
  \<open>2 ^ 1023\<close> and \<open>2 ^ 1023\<close> in binary64 arithmetic is \<open>Infinity\<close>, above the
  maximum.
\<close>

lemma calculateStats_double_overflow:
  "median (fst (calculateStats double [2 powi 1023, 2 powi 1023])) = PosInf"
  "max_stat (fst (calculateStats double [2 powi 1023, 2 powi 1023])) = Num (2 powi 1023)"
proof -
  have "(2::real) powi 1023 + 2 powi 1023 = 2 powi 1024" by (simp add: power_int_add)
  moreover have "double (2 powi 1024) = PosInf" by (rule double_power_overflow) simp
  ultimately have b: "double (2 powi 1023 + 2 powi 1023) = PosInf" by simp
  have m: "median (fst (calculateStats double [2 powi 1023, 2 powi 1023]))
      = jsDivBy double (double (2 powi 1023 + 2 powi 1023)) 2"
    by (simp add: calculateStats_nonempty)
  show "median (fst (calculateStats double [2 powi 1023, 2 powi 1023])) = PosInf"
    unfolding m b by (simp add: jsDivBy_def)
  show "max_stat (fst (calculateStats double [2 powi 1023, 2 powi 1023])) = Num (2 powi 1023)"
    by (simp add: calculateStats_nonempty)
qed

text \<open>
  C5, as amended: for a non-empty list of deltas, with the sum and the quotients taken in
  exact arithmetic, the four results are numbers and min \<open>\<le>\<close> median \<open>\<le>\<close> max and
  min \<open>\<le>\<close> mean \<open>\<le>\<close> max. In binary64 arithmetic, on non-negative binary64 deltas
  below \<open>2 ^ 1023\<close>, so that the sum of the two middle elements does not overflow,
  min \<open>\<le>\<close> median \<open>\<le>\<close> max holds as well. The mean in binary64 arithmetic lies between
  the minimum and the maximum up to one rounding for each delta and one for the quotient:
  for fewer than \<open>2 ^ 52\<close> moderate deltas that are not below zero, \<open>n\<close> of them,
  min \<open>(1 - 2 ^ -53) ^ (n + 1) \<le>\<close> mean \<open>\<le>\<close> max \<open>(1 + 2 ^ -53) ^ (n + 1)\<close>.
\<close>

theorem calculateStats_bounds:
  "(deltas \<noteq> [] \<longrightarrow>
      jsLe (min_stat (fst (calculateStats exact deltas))) (median (fst (calculateStats exact deltas)))
      \<and> jsLe (median (fst (calculateStats exact deltas))) (max_stat (fst (calculateStats exact deltas)))
      \<and> jsLe (min_stat (fst (calculateStats exact deltas))) (mean (fst (calculateStats exact deltas)))
      \<and> jsLe (mean (fst (calculateStats exact deltas))) (max_stat (fst (calculateStats exact deltas))))
   \<and> (deltas \<noteq> [] \<and> (\<forall>x \<in> set deltas. 0 \<le> x \<and> x < 2 ^ 1023 \<and> double x = Num x) \<longrightarrow>
      jsLe (min_stat (fst (calculateStats double deltas))) (median (fst (calculateStats double deltas)))
      \<and> jsLe (median (fst (calculateStats double deltas))) (max_stat (fst (calculateStats double deltas))))
   \<and> (deltas \<noteq> [] \<and> length deltas < 2 ^ 52 \<and> (\<forall>x \<in> set deltas. moderate x \<and> 0 \<le> x) \<longrightarrow>
      (\<exists>lo hi m. min_stat (fst (calculateStats double deltas)) = Num lo
          \<and> max_stat (fst (calculateStats double deltas)) = Num hi
          \<and> mean (fst (calculateStats double deltas)) = Num m
          \<and> lo * (1 - unitRoundoff) ^ (length deltas + 1) \<le> m
          \<and> m \<le> hi * (1 + unitRoundoff) ^ (length deltas + 1)))"
  using calculateStats_bounds_exact [of deltas] calculateStats_median_bounds_double [of deltas]
    calculateStats_mean_near [of deltas]
  by blast

theorem calculateStats_bounds_witness:
  "[2, 1] \<noteq> ([] :: real list) \<and> double 1 = Num 1 \<and> double 2 = Num 2 \<and> (2 :: real) < 2 ^ 1023
   \<and> length [2, 1 :: real] < 2 ^ 52 \<and> moderate 1 \<and> moderate 2
   \<and> jsLe (min_stat (fst (calculateStats exact [2, 1]))) (mean (fst (calculateStats exact [2, 1])))
   \<and> jsLe (mean (fst (calculateStats exact [2, 1]))) (max_stat (fst (calculateStats exact [2, 1])))
   \<and> jsLe (min_stat (fst (calculateStats double [2, 1]))) (median (fst (calculateStats double [2, 1])))
   \<and> jsLe (median (fst (calculateStats double [2, 1]))) (max_stat (fst (calculateStats double [2, 1])))
   \<and> (\<exists>lo hi m. min_stat (fst (calculateStats double [2, 1])) = Num lo
          \<and> max_stat (fst (calculateStats double [2, 1])) = Num hi
          \<and> mean (fst (calculateStats double [2, 1])) = Num m
          \<and> lo * (1 - unitRoundoff) ^ 3 \<le> m \<and> m \<le> hi * (1 + unitRoundoff) ^ 3)"
proof -
  have h1: "[2, 1] \<noteq> ([] :: real list)" by simp
  have h2: "\<forall>x \<in> set [2, 1]. 0 \<le> x \<and> x < 2 ^ 1023 \<and> double x = Num x" by (simp add: double_small)
  have md: "moderate 1 \<and> moderate 2" by (simp add: moderate_def power_int_minus_divide)
  then have h3: "\<forall>x \<in> set [2, 1]. moderate x \<and> 0 \<le> x" by simp
  have h4: "length [2, 1 :: real] < 2 ^ 52" by simp
  have n: "length [2, 1 :: real] + 1 = 3" by simp
  from calculateStats_bounds [of "[2, 1]"] h1 h2 h3 h4 show ?thesis
    unfolding n using md by (simp add: double_small)
qed

text \<open>
  In binary64 arithmetic the sum of eight deltas, all the binary64 number 0.1, is rounded
  to 0.7999999999999999, and the mean 0.09999999999999999 lies below the minimum 0.1.
\<close>

lemma calculateStats_double_eight:
  "fst (calculateStats double (replicate 8 tenth)) =
     \<lparr>min_stat = Num tenth, mean = Num (7205759403792793 / 72057594037927936),
      median = Num tenth, max_stat = Num tenth\<rparr>"
  by code_simp

theorem calculateStats_double_mean_below_min:
  "\<not> jsLe (min_stat (fst (calculateStats double (replicate 8 tenth))))
          (mean (fst (calculateStats double (replicate 8 tenth))))"
  unfolding calculateStats_double_eight by (simp add: tenth_def)

subsection \<open>The argument array after the call\<close>

text \<open>
  C9: for a non-empty argument, \<open>calculateStats\<close> leaves the caller's array sorted
  ascending, a permutation of what it was, and the minimum and maximum it returns are the
  first and the last element of that array; the argument [2,1] comes back as [1,2], so the
  call changes its input.
\<close>

theorem calculateStats_sorts_in_place:
  "(deltas \<noteq> [] \<longrightarrow>
      sorted (snd (calculateStats rnd deltas)) \<and> mset (snd (calculateStats rnd deltas)) = mset deltas
      \<and> min_stat (fst (calculateStats rnd deltas)) = Num (hd (snd (calculateStats rnd deltas)))
      \<and> max_stat (fst (calculateStats rnd deltas)) = Num (last (snd (calculateStats rnd deltas))))
   \<and> snd (calculateStats rnd [2, 1]) = [1, 2]"
proof (intro conjI impI)
  assume ne: "deltas \<noteq> []"
  then have s: "sort deltas \<noteq> []" by (metis length_sort length_0_conv)
  show "sorted (snd (calculateStats rnd deltas))"
    by (simp add: calculateStats_nonempty [OF ne])
  show "mset (snd (calculateStats rnd deltas)) = mset deltas"
    by (simp add: calculateStats_nonempty [OF ne])
  show "min_stat (fst (calculateStats rnd deltas)) = Num (hd (snd (calculateStats rnd deltas)))"
    using s by (simp add: calculateStats_nonempty [OF ne] hd_conv_nth)
  show "max_stat (fst (calculateStats rnd deltas)) = Num (last (snd (calculateStats rnd deltas)))"
    using s by (simp add: calculateStats_nonempty [OF ne] last_conv_nth)
next
  show "snd (calculateStats rnd [2, 1]) = [1, 2]"
    by (simp add: calculateStats_nonempty)
qed

theorem calculateStats_sorts_in_place_witness:
  "[3, 1, 2] \<noteq> ([] :: real list)
   \<and> sorted (snd (calculateStats double [3, 1, 2]))
   \<and> mset (snd (calculateStats double [3, 1, 2])) = mset [3, 1, 2]
   \<and> snd (calculateStats double [3, 1, 2]) \<noteq> [3, 1, 2]"
proof -
  have h: "[3, 1, 2] \<noteq> ([] :: real list)" by simp
  have r: "sorted (snd (calculateStats double [3, 1, 2])) \<and> mset (snd (calculateStats double [3, 1, 2])) = mset [3, 1, 2]"
    using calculateStats_sorts_in_place [of "[3, 1, 2]" double] h by blast
  then have "snd (calculateStats double [3, 1, 2]) \<noteq> [3, 1, 2]"
    by auto
  with h r show ?thesis by blast
qed

section \<open>Properties of the delta calculator\<close>

lemma index_nth: "i < length xs \<Longrightarrow> index xs (int i) = Some (xs ! i)"
  by (simp add: index_def)

lemma coord_pair:
  assumes "length c = 2"
  shows "coord c 0 = Num (c ! 0)" "coord c 1 = Num (c ! 1)"
  using assms elem_nth [of 0 c] elem_nth [of 1 c] by (simp_all add: coord_def)

text \<open>
  On coordinate pairs the corner metric is the distance formula of the specification, in
  whatever arithmetic; in exact arithmetic that is the Euclidean distance.
\<close>

lemma calculateCornerDistance_pair:
  assumes "length c1 = 2" "length c2 = 2"
  shows "calculateCornerDistance rnd (Some c1) (Some c2) = Inr (distance rnd c1 c2)"
  by (simp add: calculateCornerDistance_def distance_def Let_def coord_pair [OF assms(1)] coord_pair [OF assms(2)])

lemma distance_exact: "distance exact p q = Num (euclid p q)"
  by (simp add: distance_def Let_def exact_def euclid_def power2_eq_square)

lemma pairDeltas_exact: "pairDeltas exact g m = euclidDeltas g m"
  by (simp add: pairDeltas_def euclidDeltas_def distance_exact)

text \<open>
  In binary64 arithmetic the distance is the rounded value of the formula: the diagonal of
  the unit square is 1.4142135623730951, not the square root of 2, and a distance whose
  square leaves the range of binary64 is \<open>Infinity\<close>.
\<close>

lemma distance_double_diagonal:
  "distance double [1, 1] [0, 0] = Num (6369051672525773 / 4503599627370496)"
  "euclid [1, 1] [0, 0] = sqrt 2"
  "(6369051672525773 / 4503599627370496 :: real) \<noteq> sqrt 2"
proof -
  show "distance double [1, 1] [0, 0] = Num (6369051672525773 / 4503599627370496)"
    by (simp add: distance_def Let_def double_small double_sqrt2)
  show "euclid [1, 1] [0, 0] = sqrt 2"
    by (simp add: euclid_def)
  show "(6369051672525773 / 4503599627370496 :: real) \<noteq> sqrt 2"
  proof
    assume eq: "(6369051672525773 / 4503599627370496 :: real) = sqrt 2"
    have "(6369051672525773 / 4503599627370496 :: real)\<^sup>2 = (sqrt 2)\<^sup>2" by (simp only: eq)
    also have "\<dots> = 2" by simp
    finally have "(6369051672525773 / 4503599627370496 :: real)\<^sup>2 = 2" .
    then show False by (simp add: power2_eq_square)
  qed
qed

lemma distance_double_overflow:
  "distance double [2 powi 600, 0] [0, 0] = PosInf"
  "euclid [2 powi 600, 0] [0, 0] = 2 powi 600"
proof -
  define c :: real where "c = 2 powi 600"
  have pos: "0 \<le> c" by (simp add: c_def)
  have a: "double c = Num c" unfolding c_def by (rule double_power) simp_all
  have "c * c = 2 powi 1200" by (simp add: c_def power_int_add [symmetric])
  moreover have "double (2 powi 1200) = PosInf" by (rule double_power_overflow) simp
  ultimately have b: "double (c * c) = PosInf" by simp
  have "distance double [c, 0] [0, 0] = PosInf"
    by (simp add: distance_def Let_def a b double_small jsAdd_def jsSqrt_def)
  then show "distance double [2 powi 600, 0] [0, 0] = PosInf" by (simp only: c_def)
  have "euclid [c, 0] [0, 0] = c" using pos by (simp add: euclid_def)
  then show "euclid [2 powi 600, 0] [0, 0] = 2 powi 600" by (simp only: c_def)
qed

text \<open>
  On moderate coordinate differences the distance in binary64 arithmetic is within three
  roundings of the Euclidean distance: each square is within three roundings of the
  squared difference, the sum of the squares within four of the squared distance, its
  root within two of the distance, and the rounding of the root makes three.
\<close>

lemma distance_near:
  assumes "moderate (p ! 0 - q ! 0)" "moderate (p ! 1 - q ! 1)"
  shows "\<exists>v. distance double p q = Num v \<and> nearBy 3 (euclid p q) v"
proof -
  define dx where "dx = p ! 0 - q ! 0"
  define dy where "dy = p ! 1 - q ! 1"
  define e2 where "e2 = dx * dx + dy * dy"
  have mx: "moderate dx" and my: "moderate dy" using assms by (simp_all add: dx_def dy_def)
  obtain a where a: "jsMul double (double dx) (double dx) = Num a" and na: "nearBy 3 (dx * dx) a"
    using square_near [OF mx] by blast
  obtain b where b: "jsMul double (double dy) (double dy) = Num b" and nb: "nearBy 3 (dy * dy) b"
    using square_near [OF my] by blast
  have nab: "nearBy 3 e2 (a + b)" unfolding e2_def using na nb by (rule nearBy_add)
  have pos: "0 \<le> e2" by (simp add: e2_def)
  have sx: "(dx * dx = 0 \<or> 2 powi (- 1000) \<le> dx * dx) \<and> dx * dx \<le> 2 ^ 1000"
    using mx by (rule moderate_square)
  have sy: "(dy * dy = 0 \<or> 2 powi (- 1000) \<le> dy * dy) \<and> dy * dy \<le> 2 ^ 1000"
    using my by (rule moderate_square)
  have nx: "0 \<le> dx * dx" and ny: "0 \<le> dy * dy" by simp_all
  have lo: "e2 = 0 \<or> 2 powi (- 1000) \<le> e2"
    using sx sy nx ny unfolding e2_def by linarith
  have hi: "e2 \<le> 2 * 2 ^ 1000" using sx sy unfolding e2_def by linarith
  have l0: "(0::real) \<le> 2 powi (- 1000)" by simp
  have half: "(2::real) powi (- 1000) / 2 = 2 powi (- 1001)" by (simp add: power_int_diff)
  have tiny: "(2::real) powi (- 1022) \<le> 2 powi (- 1001)" by (intro power_int_increasing) simp_all
  have big: "(2::real) * (2 * 2 ^ 1000) \<le> 2 ^ 1023"
  proof -
    have "(2::real) * (2 * 2 ^ 1000) = 2 ^ 1002" by simp
    moreover have "(2::real) ^ 1002 \<le> 2 ^ 1023" by (intro power_increasing) simp_all
    ultimately show ?thesis by simp
  qed
  have "(a + b = 0 \<or> 2 powi (- 1000) / 2 \<le> a + b) \<and> a + b \<le> 2 * (2 * 2 ^ 1000)"
    using nab _ lo hi l0 by (rule nearBy_range) simp
  then have c1: "a + b = 0 \<or> 2 powi (- 1022) \<le> a + b" and c2: "a + b \<le> 2 ^ 1023"
    using half tiny big by auto
  obtain s where s: "double (a + b) = Num s" and ns: "nearBy (Suc 3) e2 s"
    using double_nearBy [OF pos nab c1 c2] by blast
  have ns4: "nearBy (2 * 2) e2 s" using ns by (simp add: eval_nat_numeral)
  have s0: "0 \<le> s" using pos ns by (rule nearBy_nonneg)
  have nq: "nearBy 2 (sqrt e2) (sqrt s)" using ns4 pos by (rule nearBy_sqrt)
  have "(s = 0 \<or> 2 powi (- 1000) / 2 \<le> s) \<and> s \<le> 2 * (2 * 2 ^ 1000)"
    using ns _ lo hi l0 by (rule nearBy_range) simp
  then have r1: "s = 0 \<or> 2 powi (- 1022) \<le> s" and r2: "s \<le> 2 ^ 1023"
    using half tiny big by auto
  have one: "(2::real) powi (- 1022) \<le> 1" by (simp add: power_int_minus_divide)
  have "(sqrt s = 0 \<or> 2 powi (- 1022) \<le> sqrt s) \<and> sqrt s \<le> 2 ^ 1023"
    using r1 r2 _ one by (rule sqrt_range) simp_all
  then have q1: "sqrt s = 0 \<or> 2 powi (- 1022) \<le> sqrt s" and q2: "sqrt s \<le> 2 ^ 1023"
    by simp_all
  have "0 \<le> sqrt e2" using pos by simp
  then obtain v where v: "double (sqrt s) = Num v" and nv: "nearBy (Suc 2) (sqrt e2) v"
    using double_nearBy [OF _ nq q1 q2] by blast
  have eu: "sqrt e2 = euclid p q"
    by (simp add: e2_def dx_def dy_def euclid_def power2_eq_square)
  have "distance double p q = jsSqrt double (jsAdd double (Num a) (Num b))"
    using a b by (simp add: distance_def Let_def dx_def dy_def)
  also have "\<dots> = Num v" using s s0 v by simp
  finally have "distance double p q = Num v" .
  moreover have "nearBy 3 (euclid p q) v" using nv eu by (simp add: eval_nat_numeral)
  ultimately show ?thesis by blast
qed

lemma pairDeltas_near:
  assumes "i < 4" "moderate (corners g ! i ! 0 - corners m ! i ! 0)"
    "moderate (corners g ! i ! 1 - corners m ! i ! 1)"
  shows "\<exists>v. pairDeltas double g m ! i = Num v \<and> nearBy 3 (euclid (corners g ! i) (corners m ! i)) v"
proof -
  have "i = 0 \<or> i = 1 \<or> i = 2 \<or> i = 3" using assms(1) by arith
  then have "pairDeltas double g m ! i = distance double (corners g ! i) (corners m ! i)"
    by (auto simp add: pairDeltas_def)
  then show ?thesis using distance_near [OF assms(2,3)] by simp
qed

text \<open>
  The distance is a number that is not below zero, in every arithmetic whose rounding
  returns a number and keeps a result that is not below zero so.
\<close>

lemma nonNegative_isNumber: "nonNegative v \<Longrightarrow> isNumber v"
  by (cases v) (simp_all add: nonNegative_def)

lemma nonNegative_square:
  assumes "\<And>x. 0 \<le> x \<Longrightarrow> nonNegative (rnd x)" "isNumber v"
  shows "nonNegative (jsMul rnd v v)"
  using assms by (cases v) (simp_all add: jsMul_def signOf_def nonNegative_def)

lemma nonNegative_sum:
  assumes "\<And>x. 0 \<le> x \<Longrightarrow> nonNegative (rnd x)" "nonNegative u" "nonNegative v"
  shows "nonNegative (jsAdd rnd u v)"
  using assms by (cases u; cases v) (simp_all add: jsAdd_def nonNegative_def)

lemma nonNegative_sqrt:
  assumes "\<And>x. 0 \<le> x \<Longrightarrow> nonNegative (rnd x)" "nonNegative v"
  shows "nonNegative (jsSqrt rnd v)"
  using assms by (cases v) (simp_all add: jsSqrt_def nonNegative_def)

lemma distance_nonNegative:
  assumes "\<And>x. isNumber (rnd x)" "\<And>x. 0 \<le> x \<Longrightarrow> nonNegative (rnd x)"
  shows "nonNegative (distance rnd p q)"
  unfolding distance_def Let_def
  by (intro nonNegative_sqrt nonNegative_sum nonNegative_square assms) (simp_all add: assms(1))

lemma double_keeps_nonNegative: "0 \<le> x \<Longrightarrow> nonNegative (double x)"
  using double_nonneg [of x] by (auto simp add: nonNegative_def)

lemma distance_double_isNumber: "isNumber (distance double p q)"
proof -
  have "nonNegative (distance double p q)"
    by (rule distance_nonNegative) (simp_all add: double_keeps_nonNegative)
  then show ?thesis by (rule nonNegative_isNumber)
qed

lemma cornerLoop_wellFormed:
  assumes "wellFormed g" "wellFormed m"
  shows "cornerLoop rnd g m 0 acc = Inr (acc @ pairDeltas rnd g m)"
proof -
  have len: "length (corners g) = 4" "length (corners m) = 4"
    using assms by (simp_all add: wellFormed_def)
  have two: "\<And>i. i < 4 \<Longrightarrow> length (corners g ! i) = 2 \<and> length (corners m ! i) = 2"
    using assms by (simp add: wellFormed_def list_all_length)
  have step: "\<And>i j acc. i < 4 \<Longrightarrow> j = i + 1 \<Longrightarrow>
      cornerLoop rnd g m i acc = cornerLoop rnd g m j (acc @ [distance rnd (corners g ! i) (corners m ! i)])"
    using len two
    by (subst cornerLoop.simps) (simp add: index_nth calculateCornerDistance_pair)
  have stop: "\<And>acc. cornerLoop rnd g m 4 acc = Inr acc"
    by (subst cornerLoop.simps) simp
  have s0: "\<And>acc. cornerLoop rnd g m 0 acc = cornerLoop rnd g m 1 (acc @ [distance rnd (corners g ! 0) (corners m ! 0)])"
    by (rule step) simp_all
  have s1: "\<And>acc. cornerLoop rnd g m 1 acc = cornerLoop rnd g m 2 (acc @ [distance rnd (corners g ! 1) (corners m ! 1)])"
    by (rule step) simp_all
  have s2: "\<And>acc. cornerLoop rnd g m 2 acc = cornerLoop rnd g m 3 (acc @ [distance rnd (corners g ! 2) (corners m ! 2)])"
    by (rule step) simp_all
  have s3: "\<And>acc. cornerLoop rnd g m 3 acc = cornerLoop rnd g m 4 (acc @ [distance rnd (corners g ! 3) (corners m ! 3)])"
    by (rule step) simp_all
  show ?thesis
    unfolding s0 s1 s2 s3 stop pairDeltas_def by simp
qed

lemma find_in_set: "find P xs = Some x \<Longrightarrow> x \<in> set xs \<and> P x"
  by (induction xs) (auto split: if_splits)

lemma tagLoop_wellFormed:
  assumes "\<And>d. d \<in> set gt \<Longrightarrow> wellFormed d" "\<And>d. d \<in> set det \<Longrightarrow> wellFormed d"
  shows "tagLoop rnd gt det acc = Inr (acc @ expected rnd gt det)"
  using assms(1)
proof (induction gt arbitrary: acc)
  case Nil
  then show ?case by (simp add: expected_def)
next
  case (Cons g gt)
  show ?case
  proof (cases "find (\<lambda>d. id_tag d = id_tag g) det")
    case None
    then show ?thesis using Cons by (simp add: expected_def)
  next
    case (Some m)
    then have "wellFormed m" using assms(2) find_in_set by fastforce
    moreover have "wellFormed g" using Cons.prems by simp
    ultimately show ?thesis using Some Cons by (simp add: expected_def cornerLoop_wellFormed)
  qed
qed

lemma find_None_ids: "(find (\<lambda>d. id_tag d = k) det = None) = (k \<notin> ids det)"
  by (auto simp add: find_None_iff ids_def)

lemma expected_common:
  "expected rnd gt det =
     concat (map (\<lambda>g. pairDeltas rnd g (the (find (\<lambda>d. id_tag d = id_tag g) det))) (common gt det))"
proof (induction gt)
  case Nil
  then show ?case by (simp add: expected_def common_def)
next
  case (Cons g gt)
  show ?case
  proof (cases "find (\<lambda>d. id_tag d = id_tag g) det")
    case None
    then have "id_tag g \<notin> ids det" by (simp add: find_None_ids)
    with None Cons show ?thesis by (simp add: expected_def common_def)
  next
    case (Some m)
    then have "id_tag g \<in> ids det" using find_None_ids [of "id_tag g" det] by simp
    with Some Cons show ?thesis by (simp add: expected_def common_def)
  qed
qed

lemma concat_blocks_length:
  "(\<And>x. x \<in> set xs \<Longrightarrow> length (f x) = n) \<Longrightarrow> length (concat (map f xs)) = n * length xs"
  by (induction xs) simp_all

lemma concat_blocks_nth:
  "(\<And>x. x \<in> set xs \<Longrightarrow> length (f x) = n) \<Longrightarrow> k < length xs \<Longrightarrow>
     take n (drop (n * k) (concat (map f xs))) = f (xs ! k)"
proof (induction xs arbitrary: k)
  case Nil
  then show ?case by simp
next
  case (Cons x xs)
  have lx: "length (f x) = n" using Cons.prems(1) by simp
  show ?case
  proof (cases k)
    case 0
    then show ?thesis using lx by simp
  next
    case (Suc j)
    then have j: "j < length xs" using Cons.prems(2) by simp
    have "n * k = length (f x) + n * j" using Suc lx by simp
    then have "drop (n * k) (concat (map f (x # xs))) = drop (n * j) (concat (map f xs))"
      by simp
    then show ?thesis using Cons.IH [of j] Cons.prems(1) j Suc by simp
  qed
qed

lemma length_common:
  assumes "distinct (map id_tag gt)"
  shows "length (common gt det) = card (ids gt \<inter> ids det)"
proof -
  have d: "distinct (map id_tag (common gt det))"
    using assms by (simp add: common_def distinct_map_filter)
  have "set (map id_tag (common gt det)) = ids gt \<inter> ids det"
    by (auto simp add: common_def ids_def)
  then have "card (ids gt \<inter> ids det) = length (map id_tag (common gt det))"
    using distinct_card [OF d] by simp
  then show ?thesis by simp
qed

lemma partner_unique:
  fixes det :: "detection list"
  assumes "distinct (map id_tag det)" "m \<in> set det" "id_tag m = k"
  shows "find (\<lambda>d. id_tag d = k) det = Some m"
proof -
  have "k \<in> ids det" using assms by (auto simp add: ids_def)
  then obtain m' where f: "find (\<lambda>d. id_tag d = k) det = Some m'"
    using find_None_ids [of k det] by (cases "find (\<lambda>d. id_tag d = k) det") auto
  then have "m' \<in> set det \<and> id_tag m' = k" by (rule find_in_set)
  moreover have "inj_on id_tag (set det)" using assms(1) by (simp add: distinct_map)
  ultimately have "m' = m" using assms(2,3) by (auto dest: inj_onD)
  with f show ?thesis by simp
qed

lemma length_pairDeltas: "length (pairDeltas rnd g m) = 4"
  by (simp add: pairDeltas_def)

lemma isNum_expected_exact: "list_all isNum (expected exact gt det)"
  by (induction gt) (auto simp add: expected_def pairDeltas_def distance_exact split: option.splits)

lemma isNumber_expected_double: "list_all isNumber (expected double gt det)"
  by (induction gt) (auto simp add: expected_def pairDeltas_def distance_double_isNumber split: option.splits)

lemma wellFormed_examples: "wellFormed tag1" "wellFormed tag1_moved" "wellFormed tag2"
  by (simp_all add: wellFormed_def tag1_def tag1_moved_def tag2_def)

lemmas calculateDeltas_eval =
  calculateDeltas_def cornerLoop.simps index_def calculateCornerDistance_def coord_def elem_def
  double_small

text \<open>
  The scenarios of the specification: one corner moved by one pixel, and a marker that
  the comparison lacks.
\<close>

lemma calculateDeltas_scenario:
  "calculateDeltas double [tag1, tag2] [tag1_moved] = Inr [Num 0, Num 0, Num 0, Num 1]"
  by (simp add: calculateDeltas_eval tag1_def tag1_moved_def tag2_def)

text \<open>
  Outside the precondition the reads do leave the arrays: a detection with three corners
  makes \<open>calculateDeltas\<close> raise, a corner with one coordinate yields \<open>NaN\<close>.
\<close>

lemma calculateDeltas_three_corners:
  "calculateDeltas double [tag1] [tag1_three_corners] = Inl TypeError"
  by (simp add: calculateDeltas_eval tag1_def tag1_three_corners_def)

lemma calculateDeltas_short_corner:
  "calculateDeltas double [tag1] [tag1_short_corner] = Inr [Num 0, Num 0, Num 0, NaN]"
  by (simp add: calculateDeltas_eval tag1_def tag1_short_corner_def)

subsection \<open>Four entries per common marker\<close>

lemma calculateCornerDistance_Some:
  "\<exists>v. calculateCornerDistance rnd (Some c1) (Some c2) = Inr v"
  by (simp add: calculateCornerDistance_def Let_def)

lemma cornerLoop_from:
  assumes "i \<le> 4" "length (corners g) = 4" "length (corners m) = 4"
  shows "\<exists>vs. cornerLoop rnd g m i acc = Inr (acc @ vs) \<and> length vs = 4 - i"
  using assms
proof (induction rnd g m i acc rule: cornerLoop.induct)
  case (1 rnd gtTag detTag i deltas)
  show ?case
  proof (cases "i < 4")
    case True
    have ig: "index (corners gtTag) (int i) = Some (corners gtTag ! i)"
      and im: "index (corners detTag) (int i) = Some (corners detTag ! i)"
      using True "1.prems" by (simp_all add: index_nth)
    obtain v where v: "calculateCornerDistance rnd (index (corners gtTag) (int i))
        (index (corners detTag) (int i)) = Inr v"
      unfolding ig im using calculateCornerDistance_Some by blast
    have "i + 1 \<le> 4" using True by simp
    from "1.IH" [OF True v this "1.prems"(2,3)]
    obtain vs where vs: "cornerLoop rnd gtTag detTag (i + 1) (deltas @ [v]) = Inr ((deltas @ [v]) @ vs)"
      and l: "length vs = 4 - (i + 1)" by blast
    have "cornerLoop rnd gtTag detTag i deltas = cornerLoop rnd gtTag detTag (i + 1) (deltas @ [v])"
      by (subst cornerLoop.simps) (simp add: True v)
    then have "cornerLoop rnd gtTag detTag i deltas = Inr (deltas @ (v # vs))"
      using vs by simp
    moreover have "length (v # vs) = 4 - i" using l True by simp
    ultimately show ?thesis by blast
  next
    case False
    then have "cornerLoop rnd gtTag detTag i deltas = Inr deltas"
      by (subst cornerLoop.simps) simp
    then show ?thesis using False "1.prems"(1) by simp
  qed
qed

lemma cornerLoop_four:
  assumes "length (corners g) = 4" "length (corners m) = 4"
  shows "\<exists>vs. cornerLoop rnd g m 0 acc = Inr (acc @ vs) \<and> length vs = 4"
  using cornerLoop_from [of 0 g m rnd acc] assms by simp

lemma tagLoop_four:
  assumes "\<And>d. d \<in> set gt \<Longrightarrow> length (corners d) = 4" "\<And>d. d \<in> set det \<Longrightarrow> length (corners d) = 4"
  shows "\<exists>ds. tagLoop rnd gt det acc = Inr (acc @ ds) \<and> length ds = 4 * length (common gt det)"
  using assms(1)
proof (induction gt arbitrary: acc)
  case Nil
  then show ?case by (simp add: common_def)
next
  case (Cons g gt)
  show ?case
  proof (cases "find (\<lambda>d. id_tag d = id_tag g) det")
    case None
    then have "id_tag g \<notin> ids det" by (simp add: find_None_ids)
    then have c: "common (g # gt) det = common gt det" by (simp add: common_def)
    obtain ds where "tagLoop rnd gt det acc = Inr (acc @ ds)" "length ds = 4 * length (common gt det)"
      using Cons.IH [of acc] Cons.prems by auto
    then show ?thesis using None c by auto
  next
    case (Some m)
    then have "id_tag g \<in> ids det" using find_None_ids [of "id_tag g" det] by simp
    then have c: "common (g # gt) det = g # common gt det" by (simp add: common_def)
    have "m \<in> set det" using Some find_in_set by fastforce
    then have m4: "length (corners m) = 4" by (rule assms(2))
    have g4: "length (corners g) = 4" using Cons.prems by simp
    obtain vs where v: "cornerLoop rnd g m 0 acc = Inr (acc @ vs)" "length vs = 4"
      using cornerLoop_four [OF g4 m4, of rnd acc] by auto
    obtain ds where d: "tagLoop rnd gt det (acc @ vs) = Inr ((acc @ vs) @ ds)"
      "length ds = 4 * length (common gt det)"
      using Cons.IH [of "acc @ vs"] Cons.prems by auto
    have "tagLoop rnd (g # gt) det acc = Inr (acc @ (vs @ ds))"
      using Some v(1) d(1) by simp
    moreover have "length (vs @ ds) = 4 * length (common (g # gt) det)"
      using v(2) d(2) c by simp
    ultimately show ?thesis by blast
  qed
qed

lemma calculateDeltas_blocks:
  assumes "\<forall>d \<in> set gt \<union> set det. wellFormed d" and "distinct (map id_tag det)"
    and "calculateDeltas rnd gt det = Inr ds"
  shows "\<forall>k < length (common gt det). \<forall>m \<in> set det.
           id_tag m = id_tag (common gt det ! k) \<longrightarrow>
           take 4 (drop (4 * k) ds) = pairDeltas rnd (common gt det ! k) m"
proof (intro allI impI ballI)
  let ?f = "\<lambda>g. pairDeltas rnd g (the (find (\<lambda>d. id_tag d = id_tag g) det))"
  fix k m
  assume k: "k < length (common gt det)" and m: "m \<in> set det"
    and i: "id_tag m = id_tag (common gt det ! k)"
  have "calculateDeltas rnd gt det = Inr (expected rnd gt det)"
    using assms(1) tagLoop_wellFormed [of gt det rnd "[]"] by (simp add: calculateDeltas_def)
  then have ds: "ds = concat (map ?f (common gt det))"
    using assms(3) by (simp add: expected_common)
  have "find (\<lambda>d. id_tag d = id_tag (common gt det ! k)) det = Some m"
    using assms(2) m i by (rule partner_unique)
  then have "?f (common gt det ! k) = pairDeltas rnd (common gt det ! k) m" by simp
  moreover have "take 4 (drop (4 * k) (concat (map ?f (common gt det)))) = ?f (common gt det ! k)"
    using k by (intro concat_blocks_nth) (simp_all add: length_pairDeltas)
  ultimately show "take 4 (drop (4 * k) ds) = pairDeltas rnd (common gt det ! k) m"
    unfolding ds by simp
qed

text \<open>
  C1: when every detection of both sets has exactly 4 corners and identifiers are unique
  within each set, \<open>calculateDeltas\<close> returns a list whose length is 4 times the number
  of identifiers common to both sets: 4 entries for every reference marker with a match,
  none for a marker of the reference alone. When the corners are coordinate pairs, the
  \<open>k\<close>-th reference marker that has a match (in reference order) fills entries \<open>4k\<close> to
  \<open>4k+3\<close> with the distances of its corners to the corners of the comparison detection
  with its identifier, in corner order. This holds whatever the rounding of the
  arithmetic, binary64 included, the distance being the formula
  \<open>sqrt (dx * dx + dy * dy)\<close> evaluated in that arithmetic; evaluated in exact arithmetic
  the four distances are the Euclidean distances of the mathematics, and evaluated in
  binary64 arithmetic on moderate coordinate differences each is within three roundings
  of the Euclidean distance.
\<close>

theorem calculateDeltas_common:
  assumes "\<forall>d \<in> set gt \<union> set det. length (corners d) = 4"
      and "distinct (map id_tag gt)" and "distinct (map id_tag det)"
  shows "(\<exists>ds. calculateDeltas rnd gt det = Inr ds
           \<and> length ds = 4 * card (ids gt \<inter> ids det)
           \<and> ((\<forall>d \<in> set gt \<union> set det. wellFormed d) \<longrightarrow>
                (\<forall>k < length (common gt det). \<forall>m \<in> set det.
                   id_tag m = id_tag (common gt det ! k) \<longrightarrow>
                   take 4 (drop (4 * k) ds) = pairDeltas rnd (common gt det ! k) m)))
       \<and> (\<forall>g m. pairDeltas exact g m = euclidDeltas g m)
       \<and> (\<forall>g m. \<forall>i < 4. moderate (corners g ! i ! 0 - corners m ! i ! 0)
              \<and> moderate (corners g ! i ! 1 - corners m ! i ! 1) \<longrightarrow>
              (\<exists>v. pairDeltas double g m ! i = Num v
                 \<and> nearBy 3 (euclid (corners g ! i) (corners m ! i)) v))"
proof -
  obtain ds where r: "calculateDeltas rnd gt det = Inr ds"
    and l: "length ds = 4 * length (common gt det)"
    using assms(1) tagLoop_four [of gt det rnd "[]"] by (auto simp add: calculateDeltas_def)
  have len: "length ds = 4 * card (ids gt \<inter> ids det)"
    using l length_common [OF assms(2), of det] by simp
  have "(\<forall>d \<in> set gt \<union> set det. wellFormed d) \<longrightarrow>
      (\<forall>k < length (common gt det). \<forall>m \<in> set det.
         id_tag m = id_tag (common gt det ! k) \<longrightarrow>
         take 4 (drop (4 * k) ds) = pairDeltas rnd (common gt det ! k) m)"
    using calculateDeltas_blocks [OF _ assms(3) r] by blast
  with r len have "\<exists>ds. calculateDeltas rnd gt det = Inr ds
      \<and> length ds = 4 * card (ids gt \<inter> ids det)
      \<and> ((\<forall>d \<in> set gt \<union> set det. wellFormed d) \<longrightarrow>
           (\<forall>k < length (common gt det). \<forall>m \<in> set det.
              id_tag m = id_tag (common gt det ! k) \<longrightarrow>
              take 4 (drop (4 * k) ds) = pairDeltas rnd (common gt det ! k) m))"
    by blast
  then show ?thesis using pairDeltas_exact pairDeltas_near by blast
qed

theorem calculateDeltas_common_witness:
  "length (corners tag1) = 4 \<and> length (corners tag2) = 4 \<and> length (corners tag1_moved) = 4
   \<and> wellFormed tag1 \<and> wellFormed tag2 \<and> wellFormed tag1_moved
   \<and> distinct (map id_tag [tag1, tag2]) \<and> distinct (map id_tag [tag1_moved])
   \<and> (3 :: nat) < 4 \<and> moderate (corners tag1 ! 3 ! 0 - corners tag1_moved ! 3 ! 0)
   \<and> moderate (corners tag1 ! 3 ! 1 - corners tag1_moved ! 3 ! 1)
   \<and> (\<exists>ds. calculateDeltas double [tag1, tag2] [tag1_moved] = Inr ds \<and> length ds = 4
          \<and> take 4 ds = pairDeltas double tag1 tag1_moved)
   \<and> (\<exists>v. pairDeltas double tag1 tag1_moved ! 3 = Num v
          \<and> nearBy 3 (euclid (corners tag1 ! 3) (corners tag1_moved ! 3)) v)"
proof -
  have wf: "\<forall>d \<in> set [tag1, tag2] \<union> set [tag1_moved]. wellFormed d"
    by (simp add: wellFormed_examples)
  then have four: "\<forall>d \<in> set [tag1, tag2] \<union> set [tag1_moved]. length (corners d) = 4"
    by (simp add: wellFormed_def)
  have d1: "distinct (map id_tag [tag1, tag2])" by (simp add: tag1_def tag2_def)
  have d2: "distinct (map id_tag [tag1_moved])" by simp
  have c: "common [tag1, tag2] [tag1_moved] = [tag1]"
    by (simp add: common_def ids_def tag1_def tag2_def tag1_moved_def)
  have n: "card (ids [tag1, tag2] \<inter> ids [tag1_moved]) = 1"
    by (simp add: ids_def tag1_def tag2_def tag1_moved_def)
  have md: "moderate (corners tag1 ! 3 ! 0 - corners tag1_moved ! 3 ! 0)
      \<and> moderate (corners tag1 ! 3 ! 1 - corners tag1_moved ! 3 ! 1)"
    by (simp add: tag1_def tag1_moved_def moderate_def power_int_minus_divide)
  note t = calculateDeltas_common [OF four d1 d2, of double]
  have near: "\<exists>v. pairDeltas double tag1 tag1_moved ! 3 = Num v
      \<and> nearBy 3 (euclid (corners tag1 ! 3) (corners tag1_moved ! 3)) v"
    using t md by simp
  obtain ds where r: "calculateDeltas double [tag1, tag2] [tag1_moved] = Inr ds"
    and l: "length ds = 4 * card (ids [tag1, tag2] \<inter> ids [tag1_moved])"
    and b: "(\<forall>d \<in> set [tag1, tag2] \<union> set [tag1_moved]. wellFormed d) \<longrightarrow>
        (\<forall>k < length (common [tag1, tag2] [tag1_moved]). \<forall>m \<in> set [tag1_moved].
          id_tag m = id_tag (common [tag1, tag2] [tag1_moved] ! k) \<longrightarrow>
          take 4 (drop (4 * k) ds) = pairDeltas double (common [tag1, tag2] [tag1_moved] ! k) m)"
    using t by blast
  have "take 4 (drop (4 * 0) ds) = pairDeltas double tag1 tag1_moved"
    using b wf c by (simp add: tag1_def tag1_moved_def)
  then have "take 4 ds = pairDeltas double tag1 tag1_moved" by simp
  with r l n have "\<exists>ds. calculateDeltas double [tag1, tag2] [tag1_moved] = Inr ds \<and> length ds = 4
      \<and> take 4 ds = pairDeltas double tag1 tag1_moved"
    by simp
  with near md d1 d2 four show ?thesis by (simp add: wellFormed_examples)
qed

subsection \<open>Every corner read is inside its array\<close>

text \<open>
  C10: when every detection of both sets has exactly 4 corners, each a pair of
  coordinates, every read \<open>corners[i]\<close> for \<open>i < 4\<close> yields a corner and both coordinate
  reads of it yield numbers, so \<open>calculateDeltas\<close> returns a list (it does not raise) and
  every entry of the list is a number: in binary64 arithmetic a finite number or an
  infinity, never \<open>NaN\<close> or \<open>undefined\<close>, and in exact arithmetic a finite number.
\<close>

theorem calculateDeltas_defined:
  assumes "\<forall>d \<in> set gt \<union> set det. wellFormed d"
  shows "(\<forall>d \<in> set gt \<union> set det. \<forall>i < 4. \<exists>c. index (corners d) (int i) = Some c
            \<and> isNum (coord c 0) \<and> isNum (coord c 1))
       \<and> (\<exists>ds. calculateDeltas double gt det = Inr ds \<and> list_all isNumber ds)
       \<and> (\<exists>ds. calculateDeltas exact gt det = Inr ds \<and> list_all isNum ds)"
proof (intro conjI ballI allI impI)
  fix d and i :: nat
  assume d: "d \<in> set gt \<union> set det" and i: "i < 4"
  then have wf: "wellFormed d" using assms by blast
  then have "index (corners d) (int i) = Some (corners d ! i)"
    using i by (simp add: wellFormed_def index_nth)
  moreover have "length (corners d ! i) = 2"
    using wf i by (simp add: wellFormed_def list_all_length)
  then have "isNum (coord (corners d ! i) 0) \<and> isNum (coord (corners d ! i) 1)"
    by (simp add: coord_pair)
  ultimately show "\<exists>c. index (corners d) (int i) = Some c \<and> isNum (coord c 0) \<and> isNum (coord c 1)"
    by blast
next
  have "calculateDeltas double gt det = Inr (expected double gt det)"
    using assms tagLoop_wellFormed [of gt det double "[]"] by (simp add: calculateDeltas_def)
  then show "\<exists>ds. calculateDeltas double gt det = Inr ds \<and> list_all isNumber ds"
    using isNumber_expected_double by blast
next
  have "calculateDeltas exact gt det = Inr (expected exact gt det)"
    using assms tagLoop_wellFormed [of gt det exact "[]"] by (simp add: calculateDeltas_def)
  then show "\<exists>ds. calculateDeltas exact gt det = Inr ds \<and> list_all isNum ds"
    using isNum_expected_exact by blast
qed

theorem calculateDeltas_defined_witness:
  "wellFormed tag1 \<and> wellFormed tag2 \<and> wellFormed tag1_moved
   \<and> (\<exists>ds. calculateDeltas double [tag1, tag2] [tag1_moved] = Inr ds \<and> list_all isNumber ds)"
proof -
  have wf: "\<forall>d \<in> set [tag1, tag2] \<union> set [tag1_moved]. wellFormed d"
    by (simp add: wellFormed_examples)
  show ?thesis
    using calculateDeltas_defined [OF wf] by (simp add: wellFormed_examples)
qed

section \<open>Properties of the driver\<close>

lemma andThen_cases:
  assumes "andThen m f = (ev, r)"
  shows "(\<exists>e. m = (ev, Inl e) \<and> r = Inl e)
       \<or> (\<exists>ev1 x ev2. m = (ev1, Inr x) \<and> f x = (ev2, r) \<and> ev = ev1 @ ev2)"
  using assms by (auto simp add: andThen_def split: prod.splits sum.splits)

lemma eventsAll_andThen:
  assumes "eventsAll P m" "\<And>x. eventsAll P (f x)"
  shows "eventsAll P (andThen m f)"
proof (cases "andThen m f")
  case (Pair ev r)
  from andThen_cases [OF Pair] show ?thesis
  proof (elim disjE exE conjE)
    fix e assume "m = (ev, Inl e)" "r = Inl e"
    then show ?thesis using assms(1) Pair by (simp add: eventsAll_def)
  next
    fix ev1 x ev2 assume "m = (ev1, Inr x)" "f x = (ev2, r)" "ev = ev1 @ ev2"
    then show ?thesis using assms(1) assms(2) [of x] Pair by (simp add: eventsAll_def)
  qed
qed

lemma stops_andThen:
  assumes "stopsAtFailedUnlink w m" "\<And>x. stopsAtFailedUnlink w (f x)"
  shows "stopsAtFailedUnlink w (andThen m f)"
proof (cases "andThen m f")
  case (Pair ev r)
  from andThen_cases [OF Pair] show ?thesis
  proof (elim disjE exE conjE)
    fix e assume "m = (ev, Inl e)" "r = Inl e"
    then show ?thesis using assms(1) Pair by (simp add: stopsAtFailedUnlink_def)
  next
    fix ev1 x ev2 assume h: "m = (ev1, Inr x)" "f x = (ev2, r)" "ev = ev1 @ ev2"
    have a: "list_all (\<lambda>e. \<not> failedUnlink w e) ev1"
      using assms(1) h(1) by (simp add: stopsAtFailedUnlink_def)
    have b: "list_all (\<lambda>e. \<not> failedUnlink w e) (if isl r then butlast ev2 else ev2)"
      using assms(2) [of x] h(2) by (cases "isl r") (simp_all add: stopsAtFailedUnlink_def)
    have "list_all (\<lambda>e. \<not> failedUnlink w e) (if isl r then butlast (ev1 @ ev2) else ev1 @ ev2)"
      using a b by (cases "ev2 = []") (auto simp add: butlast_append list_all_iff dest: in_set_butlastD)
    then show ?thesis using Pair h(3) by (cases "isl r") (simp_all add: stopsAtFailedUnlink_def)
  qed
qed

lemma stops_ret: "stopsAtFailedUnlink w (ret x)"
  by (simp add: stopsAtFailedUnlink_def ret_def)

lemma stops_lift: "stopsAtFailedUnlink w (lift r)"
  by (simp add: stopsAtFailedUnlink_def lift_def)

lemma stops_effect: "(ok \<Longrightarrow> \<not> failedUnlink w e) \<Longrightarrow> stopsAtFailedUnlink w (effect e ok)"
  by (simp add: stopsAtFailedUnlink_def effect_def)

lemma stops_effectGet: "\<not> failedUnlink w e \<Longrightarrow> stopsAtFailedUnlink w (effectGet e r)"
  by (simp add: stopsAtFailedUnlink_def effectGet_def)

lemma stops_printCornersOf: "stopsAtFailedUnlink w (printCornersOf tags)"
  by (simp add: printCornersOf_def stops_ret stops_lift)

lemma stops_processFile: "stopsAtFailedUnlink w (processFile w p c q f st)"
  unfolding processFile_def
  by (intro stops_andThen stops_effect stops_effectGet stops_ret stops_lift)
     (simp_all add: failedUnlink_def stops_printCornersOf stops_ret stops_andThen stops_effect)

lemma stops_fileLoop: "stopsAtFailedUnlink w (fileLoop w p c q files st)"
  by (induction files arbitrary: st) (simp_all add: stops_ret stops_andThen stops_processFile)

lemma stops_qualityLoop: "stopsAtFailedUnlink w (qualityLoop w p c files qs acc)"
  by (induction qs arbitrary: acc) (simp_all add: stops_ret stops_andThen stops_fileLoop)

lemma loop_ret: "eventsAll P (ret x)"
  by (simp add: eventsAll_def ret_def)

lemma loop_lift: "eventsAll P (lift r)"
  by (simp add: eventsAll_def lift_def)

lemma loop_effect: "P e \<Longrightarrow> eventsAll P (effect e ok)"
  by (simp add: eventsAll_def effect_def)

lemma loop_effectGet: "P e \<Longrightarrow> eventsAll P (effectGet e r)"
  by (simp add: eventsAll_def effectGet_def)

lemma loop_printCornersOf: "eventsAll P (printCornersOf tags)"
  by (simp add: printCornersOf_def loop_ret loop_lift)

lemma loop_processFile: "eventsAll isLoopEvent (processFile w p c q f st)"
  unfolding processFile_def
  by (intro eventsAll_andThen loop_effect loop_effectGet loop_ret loop_lift)
     (simp_all add: isLoopEvent_def loop_printCornersOf loop_ret eventsAll_andThen loop_effect)

lemma loop_fileLoop: "eventsAll isLoopEvent (fileLoop w p c q files st)"
  by (induction files arbitrary: st) (simp_all add: loop_ret eventsAll_andThen loop_processFile)

lemma loop_qualityLoop: "eventsAll isLoopEvent (qualityLoop w p c files qs acc)"
  by (induction qs arbitrary: acc) (simp_all add: loop_ret eventsAll_andThen loop_fileLoop)


lemma stops_result:
  "stopsAtFailedUnlink w s \<Longrightarrow> s = (ev, r) \<Longrightarrow>
     list_all (\<lambda>e. \<not> failedUnlink w e) (if isl r then butlast ev else ev)"
  by (cases "isl r") (simp_all add: stopsAtFailedUnlink_def)

lemma last_of_butlast: "x \<in> set xs \<Longrightarrow> x \<notin> set (butlast xs) \<Longrightarrow> \<exists>pre. xs = pre @ [x]"
proof (induction xs)
  case Nil
  then show ?case by simp
next
  case (Cons a xs)
  show ?case
  proof (cases "xs = []")
    case True
    then show ?thesis using Cons.prems by simp
  next
    case False
    then have "x \<in> set xs" "x \<notin> set (butlast xs)" using Cons.prems by auto
    then obtain pre where "xs = pre @ [x]" using Cons.IH by blast
    then have "a # xs = (a # pre) @ [x]" by simp
    then show ?thesis by blast
  qed
qed

lemma eventsAll_result: "eventsAll P s \<Longrightarrow> s = (ev, r) \<Longrightarrow> list_all P ev"
  by (simp add: eventsAll_def)

lemmas step_eval = andThen_def effect_def effectGet_def ret_def lift_def

lemma processFile_plain:
  "processFile world_plain False False (1 / 10) ''a.ARW'' state0 =
     ([ConvertPNG (1 / 10) ''a.ARW'', DetectPNG (1 / 10) ''a.ARW'', ConvertJPEG (1 / 10) ''a.ARW'',
       DetectJPEG (1 / 10) ''a.ARW'', UnlinkPNG (1 / 10) ''a.ARW'', UnlinkJPEG (1 / 10) ''a.ARW''],
      Inr \<lparr>allDeltas = [Num 0, Num 0, Num 0, Num 1], totalMissingMarkers = 1,
           scatterData = scatterOf (1 / 10) ''a.ARW'' [Num 0, Num 0, Num 0, Num 1]\<rparr>)"
  by (simp add: processFile_def step_eval world_plain_def state0_def calculateDeltas_scenario
      missingMarkers_def)
     (simp add: tag1_def tag2_def tag1_moved_def)

lemma selectFiles_plain:
  "selectFiles (Some 1) [''a.ARW'', ''notes.txt'', ''b.arw''] = [''a.ARW'']"
  "selectFiles (Some 2) [''a.ARW'', ''notes.txt'', ''b.arw''] = [''a.ARW'', ''b.arw'']"
  by (simp_all add: selectFiles_def isArw_def endsWith_def toLowerCase_def)

lemma filter_isArw_plain: "filter isArw [''a.ARW'', ''notes.txt'', ''b.arw''] = [''a.ARW'', ''b.arw'']"
  by (simp add: isArw_def endsWith_def toLowerCase_def)

lemmas script_eval =
  script_def rawDirOf_def subsetSizeOf_def nonFlagArgs_def startsWith_def main_def mainBody_def
  QUALITY_VALUES_def step_eval processFile_def missingMarkers_def scatterOf_def

subsection \<open>The count of missing markers\<close>

lemma missingMarkers_card:
  assumes "distinct (map id_tag gt)"
  shows "missingMarkers gt det = card (ids gt) - card (ids gt \<inter> ids det)"
proof -
  have "length (filter (\<lambda>g. id_tag g \<in> ids det) gt) + length (filter (\<lambda>g. id_tag g \<notin> ids det) gt)
          = length gt"
    by (rule sum_length_filter_compl)
  moreover have "length gt = card (ids gt)"
    using distinct_card [OF assms] by (simp add: ids_def)
  moreover have "length (filter (\<lambda>g. id_tag g \<in> ids det) gt) = card (ids gt \<inter> ids det)"
    using length_common [OF assms, of det] by (simp add: common_def)
  ultimately show ?thesis
    by (simp add: missingMarkers_def ids_def)
qed

lemma processFile_success:
  assumes "processFile w p c q f st = (ev, Inr st')"
    and "detectPNG w q f = Some gt" and "detectJPEG w q f = Some det"
  shows "totalMissingMarkers st' = totalMissingMarkers st + missingMarkers gt det
       \<and> (\<exists>deltas. calculateDeltas double gt det = Inr deltas \<and> allDeltas st' = allDeltas st @ deltas)"
  using assms
  by (auto simp add: processFile_def andThen_def effect_def effectGet_def ret_def lift_def
      printCornersOf_def split: if_splits sum.splits prod.splits)

text \<open>
  C2: in a pass of the driver over one (file, quality) pair with reference detection
  \<open>gt\<close> (identifiers unique) and comparison detection \<open>det\<close>, the count of missing
  markers is the number of reference identifiers minus the number of identifiers in both
  sets; the running total of the quality level grows by exactly this count, and the pool
  of deltas grows by the list that \<open>calculateDeltas\<close> returns, which has no entry for a
  marker that the comparison lacks.
\<close>

theorem missing_marker_count:
  assumes "processFile w p c q f st = (ev, Inr st')"
    and "detectPNG w q f = Some gt" and "detectJPEG w q f = Some det"
    and "distinct (map id_tag gt)"
  shows "missingMarkers gt det = card (ids gt) - card (ids gt \<inter> ids det)
       \<and> totalMissingMarkers st' = totalMissingMarkers st + (card (ids gt) - card (ids gt \<inter> ids det))
       \<and> (\<exists>deltas. calculateDeltas double gt det = Inr deltas \<and> allDeltas st' = allDeltas st @ deltas)"
  using processFile_success [OF assms(1-3)] missingMarkers_card [OF assms(4)] by simp

theorem missing_marker_count_witness:
  "distinct (map id_tag [tag1, tag2])
   \<and> missingMarkers [tag1, tag2] [tag1_moved] = 1
   \<and> card (ids [tag1, tag2]) - card (ids [tag1, tag2] \<inter> ids [tag1_moved]) = 1
   \<and> calculateDeltas double [tag1, tag2] [tag1_moved] = Inr [Num 0, Num 0, Num 0, Num 1]"
proof -
  have d: "distinct (map id_tag [tag1, tag2])" by (simp add: tag1_def tag2_def)
  have g: "detectPNG world_plain (1 / 10) ''a.ARW'' = Some [tag1, tag2]"
    and j: "detectJPEG world_plain (1 / 10) ''a.ARW'' = Some [tag1_moved]"
    by (simp_all add: world_plain_def)
  have n: "card (ids [tag1, tag2]) - card (ids [tag1, tag2] \<inter> ids [tag1_moved]) = 1"
    by (simp add: ids_def tag1_def tag2_def tag1_moved_def)
  show ?thesis
    using missing_marker_count [OF processFile_plain g j d] d n
    by (simp add: calculateDeltas_scenario)
qed

subsection \<open>A failing deletion of a temporary image\<close>

lemma stops_mainBody: "stopsAtFailedUnlink w (mainBody w d ss p c n)"
  unfolding mainBody_def
  by (intro stops_andThen stops_effect stops_effectGet stops_qualityLoop)
     (simp_all add: failedUnlink_def stops_ret stops_effect)

lemma mainBody_cases:
  assumes "mainBody w d ss p c n = (ev, r)"
  shows "(ev = [MakeTempDir] \<and> isl r)
       \<or> (ev = [MakeTempDir, ReadDir d] \<and> isl r)
       \<or> (\<exists>listing evQ e. readdir w d = Some listing
             \<and> qualityLoop w p c (selectFiles ss listing) QUALITY_VALUES ([], []) = (evQ, Inl e)
             \<and> ev = [MakeTempDir, ReadDir d] @ evQ \<and> r = Inl e)
       \<or> (\<exists>listing evQ acc post. readdir w d = Some listing
             \<and> qualityLoop w p c (selectFiles ss listing) QUALITY_VALUES ([], []) = (evQ, Inr acc)
             \<and> ev = [MakeTempDir, ReadDir d] @ evQ @ post
             \<and> list_all (\<lambda>e. \<not> isLoopEvent e) post)"
  using assms unfolding mainBody_def
  by (auto simp add: andThen_def effect_def effectGet_def ret_def isLoopEvent_def
      split: prod.splits sum.splits option.splits if_splits)

lemma failedUnlink_loop: "failedUnlink w e \<Longrightarrow> isLoopEvent e"
  by (cases e) (simp_all add: failedUnlink_def isLoopEvent_def)

lemma script_run:
  assumes "rawDirOf args envRawDir = Some d" "d \<noteq> []"
    and "mainBody w d (subsetSizeOf w args) (''--preserve'' \<in> set args \<or> ''-p'' \<in> set args)
           (''--corners'' \<in> set args \<or> ''-c'' \<in> set args) (''--no-plot'' \<in> set args) = (ev, r)"
  shows "script w args envRawDir =
     \<lparr>trace = CreateDetector # ev @ (if isl r then [ErrorLog] else []),
      exitCode = (if isl r then 1 else 0)\<rparr>"
  using assms by (cases r) (simp_all add: script_def main_def Let_def)

lemma script_no_dir:
  assumes "rawDirOf args envRawDir = None \<or> rawDirOf args envRawDir = Some []"
  shows "script w args envRawDir = \<lparr>trace = [ErrorLog, ErrorLog], exitCode = 1\<rparr>"
  using assms by (auto simp add: script_def Let_def)

text \<open>
  C6, as amended: when the deletion of one of the two temporary images fails, the run is
  aborted. The exit status is 1, the trace ends with the failed deletion followed by the
  logged error, so no further file or quality level is processed, and the summary table
  is neither printed nor saved.
\<close>

theorem unlink_failure_aborts:
  assumes "e \<in> set (trace (script w args envRawDir))" and "failedUnlink w e"
  shows "exitCode (script w args envRawDir) = 1
       \<and> (\<exists>pre. trace (script w args envRawDir) = pre @ [e, ErrorLog])
       \<and> (\<forall>t. PrintTable t \<notin> set (trace (script w args envRawDir))
              \<and> SaveTable t \<notin> set (trace (script w args envRawDir)))"
proof -
  have lp: "isLoopEvent e" using assms(2) by (rule failedUnlink_loop)
  have "\<not> (rawDirOf args envRawDir = None \<or> rawDirOf args envRawDir = Some [])"
  proof
    assume "rawDirOf args envRawDir = None \<or> rawDirOf args envRawDir = Some []"
    then have "script w args envRawDir = \<lparr>trace = [ErrorLog, ErrorLog], exitCode = 1\<rparr>"
      by (rule script_no_dir)
    with assms(1) lp show False by (auto simp add: isLoopEvent_def)
  qed
  then obtain d where d: "rawDirOf args envRawDir = Some d" "d \<noteq> []" by auto
  obtain ev r where mb:
    "mainBody w d (subsetSizeOf w args) (''--preserve'' \<in> set args \<or> ''-p'' \<in> set args)
       (''--corners'' \<in> set args \<or> ''-c'' \<in> set args) (''--no-plot'' \<in> set args) = (ev, r)"
    by (cases "mainBody w d (subsetSizeOf w args) (''--preserve'' \<in> set args \<or> ''-p'' \<in> set args)
       (''--corners'' \<in> set args \<or> ''-c'' \<in> set args) (''--no-plot'' \<in> set args)") auto
  note run = script_run [OF d mb]
  have e_ev: "e \<in> set ev" using assms(1) lp run by (auto simp add: isLoopEvent_def split: if_splits)
  have inv: "list_all (\<lambda>e. \<not> failedUnlink w e) (if isl r then butlast ev else ev)"
    using stops_mainBody mb by (rule stops_result)
  have r: "isl r"
  proof (rule ccontr)
    assume "\<not> isl r"
    with inv e_ev assms(2) show False by (simp add: list_all_iff)
  qed
  have "e \<notin> set (butlast ev)" using inv r assms(2) by (auto simp add: list_all_iff)
  with e_ev have "\<exists>pre. ev = pre @ [e]" by (rule last_of_butlast)
  then obtain pre where last: "ev = pre @ [e]" ..
  have tr: "trace (script w args envRawDir) = (CreateDetector # pre) @ [e, ErrorLog]"
    unfolding run last using r by simp
  have no_table: "\<And>t. PrintTable t \<notin> set ev \<and> SaveTable t \<notin> set ev"
  proof -
    fix t
    from mainBody_cases [OF mb] show "PrintTable t \<notin> set ev \<and> SaveTable t \<notin> set ev"
    proof (elim disjE exE conjE)
      assume "ev = [MakeTempDir]"
      then show ?thesis by simp
    next
      assume "ev = [MakeTempDir, ReadDir d]"
      then show ?thesis by simp
    next
      fix listing evQ x
      assume q: "qualityLoop w (''--preserve'' \<in> set args \<or> ''-p'' \<in> set args)
          (''--corners'' \<in> set args \<or> ''-c'' \<in> set args)
          (selectFiles (subsetSizeOf w args) listing) QUALITY_VALUES ([], []) = (evQ, Inl x)"
        and ev: "ev = [MakeTempDir, ReadDir d] @ evQ"
      have "list_all isLoopEvent evQ"
        using loop_qualityLoop q by (rule eventsAll_result)
      then show ?thesis using ev by (auto simp add: list_all_iff isLoopEvent_def)
    next
      fix listing evQ acc post
      assume q: "qualityLoop w (''--preserve'' \<in> set args \<or> ''-p'' \<in> set args)
          (''--corners'' \<in> set args \<or> ''-c'' \<in> set args)
          (selectFiles (subsetSizeOf w args) listing) QUALITY_VALUES ([], []) = (evQ, Inr acc)"
        and ev: "ev = [MakeTempDir, ReadDir d] @ evQ @ post"
        and post: "list_all (\<lambda>e. \<not> isLoopEvent e) post"
      have "list_all (\<lambda>e. \<not> failedUnlink w e) evQ"
        using stops_result [OF stops_qualityLoop q] by simp
      then have "e \<notin> set evQ" using assms(2) by (auto simp add: list_all_iff)
      moreover have "e \<notin> set post" using post lp by (auto simp add: list_all_iff)
      ultimately have False using e_ev ev lp by (auto simp add: isLoopEvent_def)
      then show ?thesis ..
    qed
  qed
  have "\<forall>t. PrintTable t \<notin> set (trace (script w args envRawDir))
           \<and> SaveTable t \<notin> set (trace (script w args envRawDir))"
    using no_table run by auto
  moreover have "exitCode (script w args envRawDir) = 1" using run r by simp
  ultimately show ?thesis using tr by blast
qed

theorem unlink_failure_aborts_witness:
  "UnlinkPNG (1 / 10) ''a.ARW'' \<in> set (trace (script world_unlink_fails [''2'', ''/raw''] None))
   \<and> failedUnlink world_unlink_fails (UnlinkPNG (1 / 10) ''a.ARW'')
   \<and> exitCode (script world_unlink_fails [''2'', ''/raw''] None) = 1"
proof -
  have a: "UnlinkPNG (1 / 10) ''a.ARW'' \<in> set (trace (script world_unlink_fails [''2'', ''/raw''] None))"
    by (simp add: script_eval world_unlink_fails_def world_plain_def selectFiles_plain
        calculateDeltas_scenario)
  have b: "failedUnlink world_unlink_fails (UnlinkPNG (1 / 10) ''a.ARW'')"
    by (simp add: failedUnlink_def world_unlink_fails_def)
  show ?thesis using unlink_failure_aborts [OF a b] a b by simp
qed

text \<open>
  A run in which the first deletion fails: the second file and the other eight quality
  levels are never processed and no summary is produced.
\<close>

theorem unlink_failure_run:
  "script world_unlink_fails [''2'', ''/raw''] None =
     \<lparr>trace = [CreateDetector, MakeTempDir, ReadDir ''/raw'',
               ConvertPNG (1 / 10) ''a.ARW'', DetectPNG (1 / 10) ''a.ARW'',
               ConvertJPEG (1 / 10) ''a.ARW'', DetectJPEG (1 / 10) ''a.ARW'',
               UnlinkPNG (1 / 10) ''a.ARW'', ErrorLog],
      exitCode = 1\<rparr>"
  by (simp add: script_eval world_unlink_fails_def world_plain_def selectFiles_plain
      calculateDeltas_scenario)

subsection \<open>No source directory\<close>

text \<open>
  C7: with at most one positional argument and no directory from the environment (absent
  or empty), the script logs the error and exits with status 1; its trace holds nothing
  else, so no detector is created and no directory, file or image is touched.
\<close>

theorem no_directory_exits:
  assumes "length (nonFlagArgs args) \<le> 1" and "envRawDir = None \<or> envRawDir = Some []"
  shows "script w args envRawDir = \<lparr>trace = [ErrorLog, ErrorLog], exitCode = 1\<rparr>"
proof -
  have "rawDirOf args envRawDir = None" using assms by (auto simp add: rawDirOf_def)
  then show ?thesis by (simp add: script_no_dir)
qed


theorem no_directory_exits_witness:
  "length (nonFlagArgs [''1'', ''--preserve'']) \<le> 1
   \<and> script world_plain [''1'', ''--preserve''] (Some []) = \<lparr>trace = [ErrorLog, ErrorLog], exitCode = 1\<rparr>"
proof -
  have a: "length (nonFlagArgs [''1'', ''--preserve'']) \<le> 1"
    by (simp add: nonFlagArgs_def startsWith_def)
  have b: "Some [] = (None :: string option) \<or> Some [] = Some ([] :: string)" by simp
  show ?thesis using no_directory_exits [OF a b] a by simp
qed

subsection \<open>The subset of the files\<close>

lemma convertedAt_append: "convertedAt q (a @ b) = convertedAt q a @ convertedAt q b"
  by (simp add: convertedAt_def)

lemma convertedAt_not_convert:
  "list_all (\<lambda>e. \<forall>q f. e \<noteq> ConvertPNG q f) ev \<Longrightarrow> convertedAt q ev = []"
  by (induction ev) (auto simp add: convertedAt_def split: event.splits)

lemma convertedAt_Nil: "convertedAt q [] = []"
  by (simp add: convertedAt_def)

lemma convertedAt_Convert:
  "convertedAt q (ConvertPNG q' f # tr) = (if q' = q then f # convertedAt q tr else convertedAt q tr)"
  by (simp add: convertedAt_def)

lemma convertedAt_other:
  "convertedAt q (CreateDetector # tr) = convertedAt q tr"
  "convertedAt q (MakeTempDir # tr) = convertedAt q tr"
  "convertedAt q (ReadDir d # tr) = convertedAt q tr"
  "convertedAt q (ErrorLog # tr) = convertedAt q tr"
  by (simp_all add: convertedAt_def)

lemmas convertedAt_simps = convertedAt_Nil convertedAt_Convert convertedAt_other convertedAt_append

lemma processFile_converted:
  assumes "processFile w p c q f st = (ev, r)"
  shows "convertedAt q' ev = (if q' = q then [f] else [])"
proof -
  let ?rest = "\<lambda>u::unit.
     andThen (effectGet (DetectPNG q f) (detectPNG w q f)) (\<lambda>groundTruth.
     andThen (if c \<and> q = QUALITY_VALUES ! 0 then printCornersOf groundTruth else ret ()) (\<lambda>_.
     andThen (effect (ConvertJPEG q f) (convertARWToJPEG_ok w q f)) (\<lambda>_.
     andThen (effectGet (DetectJPEG q f) (detectJPEG w q f)) (\<lambda>detection.
     andThen (if c then printCornersOf detection else ret ()) (\<lambda>_.
     andThen (lift (calculateDeltas double groundTruth detection)) (\<lambda>deltas.
     andThen (if \<not> p
              then andThen (effect (UnlinkPNG q f) (unlinkPNG_ok w q f)) (\<lambda>_.
                   effect (UnlinkJPEG q f) (unlinkJPEG_ok w q f))
              else ret ()) (\<lambda>_.
     ret \<lparr>allDeltas = allDeltas st @ deltas,
          totalMissingMarkers = totalMissingMarkers st + missingMarkers groundTruth detection,
          scatterData = scatterData st @ scatterOf q f deltas\<rparr>)))))))"
  have rest: "\<And>u. eventsAll afterConvert (?rest u)"
    by (intro eventsAll_andThen loop_effect loop_effectGet loop_ret loop_lift)
       (simp_all add: afterConvert_def loop_printCornersOf loop_ret eventsAll_andThen loop_effect)
  have pf: "processFile w p c q f st =
      andThen (effect (ConvertPNG q f) (convertARWToPNG_ok w q f)) ?rest"
    by (simp add: processFile_def)
  from andThen_cases [OF assms [unfolded pf]] show ?thesis
  proof (elim disjE exE conjE)
    fix e assume "effect (ConvertPNG q f) (convertARWToPNG_ok w q f) = (ev, Inl e)"
    then have "ev = [ConvertPNG q f]" by (simp add: effect_def)
    then show ?thesis by (simp add: convertedAt_simps)
  next
    fix ev1 x ev2
    assume a: "effect (ConvertPNG q f) (convertARWToPNG_ok w q f) = (ev1, Inr x)"
      and b: "?rest x = (ev2, r)" and c: "ev = ev1 @ ev2"
    have "ev1 = [ConvertPNG q f]" using a by (simp add: effect_def)
    moreover have "list_all afterConvert ev2" using rest b by (rule eventsAll_result)
    then have "convertedAt q' ev2 = []"
      by (intro convertedAt_not_convert) (simp add: afterConvert_def list_all_iff)
    ultimately show ?thesis using c by (auto simp add: convertedAt_simps)
  qed
qed

lemma fileLoop_converted:
  assumes "fileLoop w p c q files st = (ev, r)"
  shows "(q' \<noteq> q \<longrightarrow> convertedAt q' ev = [])
       \<and> prefix (convertedAt q ev) files
       \<and> (\<not> isl r \<longrightarrow> convertedAt q ev = files)"
  using assms
proof (induction files arbitrary: st ev r)
  case Nil
  then show ?case by (auto simp add: ret_def convertedAt_simps)
next
  case (Cons f files)
  from Cons.prems have "andThen (processFile w p c q f st) (fileLoop w p c q files) = (ev, r)"
    by simp
  from andThen_cases [OF this] show ?case
  proof (elim disjE exE conjE)
    fix e assume a: "processFile w p c q f st = (ev, Inl e)" and b: "r = Inl e"
    show ?thesis using processFile_converted [OF a] b by simp
  next
    fix ev1 x ev2
    assume a: "processFile w p c q f st = (ev1, Inr x)"
      and b: "fileLoop w p c q files x = (ev2, r)" and c: "ev = ev1 @ ev2"
    show ?thesis
      using processFile_converted [OF a] Cons.IH [OF b] c
      by (simp add: convertedAt_append)
  qed
qed

lemma qualityLoop_converted:
  assumes "distinct qs" "qualityLoop w p c files qs acc = (ev, r)"
  shows "(q \<notin> set qs \<longrightarrow> convertedAt q ev = [])
       \<and> (q \<in> set qs \<longrightarrow> prefix (convertedAt q ev) files \<and> (\<not> isl r \<longrightarrow> convertedAt q ev = files))"
  using assms
proof (induction qs arbitrary: acc ev r)
  case Nil
  then show ?case by (auto simp add: ret_def convertedAt_simps)
next
  case (Cons q0 qs)
  let ?st0 = "\<lparr>allDeltas = [], totalMissingMarkers = 0, scatterData = snd acc\<rparr>"
  let ?next = "\<lambda>st. qualityLoop w p c files qs
       (fst acc @ [\<lparr>quality = q0, stats_of = statsOfPool (allDeltas st),
                    missingMarkers_of = totalMissingMarkers st\<rparr>], scatterData st)"
  from Cons.prems(2) have "andThen (fileLoop w p c q0 files ?st0) ?next = (ev, r)"
    by simp
  from andThen_cases [OF this] show ?case
  proof (elim disjE exE conjE)
    fix e assume a: "fileLoop w p c q0 files ?st0 = (ev, Inl e)" and b: "r = Inl e"
    show ?thesis using fileLoop_converted [OF a, of q] b by auto
  next
    fix ev1 x ev2
    assume a: "fileLoop w p c q0 files ?st0 = (ev1, Inr x)"
      and b: "?next x = (ev2, r)" and c: "ev = ev1 @ ev2"
    have d: "distinct qs" "q0 \<notin> set qs" using Cons.prems(1) by simp_all
    show ?thesis
      using fileLoop_converted [OF a, of q] Cons.IH [OF d(1) b] d(2) c
      by (auto simp add: convertedAt_append)
  qed
qed

lemma distinct_QUALITY_VALUES: "distinct QUALITY_VALUES"
  by (simp add: QUALITY_VALUES_def)

lemma selectFiles_Some:
  "0 < N \<Longrightarrow> selectFiles (Some N) listing =
     (if N < int (length (filter isArw listing)) then take (nat N) (filter isArw listing)
      else filter isArw listing)"
  by (simp add: selectFiles_def)

text \<open>
  C8: let the first positional argument parse to a positive integer \<open>N\<close> and the
  directory listing hold the RAW files \<open>filter isArw listing\<close>. At every quality level
  the files whose processing starts are, in order, a prefix of the first \<open>N\<close> RAW files
  when \<open>N\<close> is less than their number, and of all RAW files otherwise; in a run that
  completes (exit status 0) they are exactly those files, the same at every quality level.
\<close>

theorem subset_selection:
  assumes "rawDirOf args envRawDir = Some d" and "d \<noteq> []" and "readdir w d = Some listing"
    and "nonFlagArgs args \<noteq> []" and "parseInt w (nonFlagArgs args ! 0) = Some N" and "0 < N"
    and "q \<in> set QUALITY_VALUES"
  shows "prefix (convertedAt q (trace (script w args envRawDir)))
           (if N < int (length (filter isArw listing)) then take (nat N) (filter isArw listing)
            else filter isArw listing)
       \<and> (exitCode (script w args envRawDir) = 0 \<longrightarrow>
            convertedAt q (trace (script w args envRawDir)) =
              (if N < int (length (filter isArw listing)) then take (nat N) (filter isArw listing)
               else filter isArw listing))"
proof -
  let ?sel = "if N < int (length (filter isArw listing)) then take (nat N) (filter isArw listing)
              else filter isArw listing"
  have ss: "subsetSizeOf w args = Some N" using assms(4,5) by (simp add: subsetSizeOf_def)
  have sel: "selectFiles (subsetSizeOf w args) listing = ?sel"
    using assms(6) ss by (simp add: selectFiles_Some)
  obtain ev r where mb:
    "mainBody w d (subsetSizeOf w args) (''--preserve'' \<in> set args \<or> ''-p'' \<in> set args)
       (''--corners'' \<in> set args \<or> ''-c'' \<in> set args) (''--no-plot'' \<in> set args) = (ev, r)"
    by (cases "mainBody w d (subsetSizeOf w args) (''--preserve'' \<in> set args \<or> ''-p'' \<in> set args)
       (''--corners'' \<in> set args \<or> ''-c'' \<in> set args) (''--no-plot'' \<in> set args)") auto
  note run = script_run [OF assms(1,2) mb]
  have tr: "convertedAt q (trace (script w args envRawDir)) = convertedAt q ev"
    unfolding run by (simp add: convertedAt_simps)
  have ex: "(exitCode (script w args envRawDir) = 0) = (\<not> isl r)"
    unfolding run by simp
  from mainBody_cases [OF mb]
  have "prefix (convertedAt q ev) ?sel \<and> (\<not> isl r \<longrightarrow> convertedAt q ev = ?sel)"
  proof (elim disjE exE conjE)
    assume "ev = [MakeTempDir]" "isl r"
    then show ?thesis by (simp add: convertedAt_simps)
  next
    assume "ev = [MakeTempDir, ReadDir d]" "isl r"
    then show ?thesis by (simp add: convertedAt_simps)
  next
    fix listing' evQ e
    assume l: "readdir w d = Some listing'"
      and ql: "qualityLoop w (''--preserve'' \<in> set args \<or> ''-p'' \<in> set args)
          (''--corners'' \<in> set args \<or> ''-c'' \<in> set args)
          (selectFiles (subsetSizeOf w args) listing') QUALITY_VALUES ([], []) = (evQ, Inl e)"
      and ev: "ev = [MakeTempDir, ReadDir d] @ evQ" and r: "r = Inl e"
    have "listing' = listing" using l assms(3) by simp
    then have "prefix (convertedAt q evQ) ?sel"
      using qualityLoop_converted [OF distinct_QUALITY_VALUES ql, of q] assms(7) sel by simp
    then show ?thesis using ev r by (simp add: convertedAt_simps)
  next
    fix listing' evQ acc post
    assume l: "readdir w d = Some listing'"
      and ql: "qualityLoop w (''--preserve'' \<in> set args \<or> ''-p'' \<in> set args)
          (''--corners'' \<in> set args \<or> ''-c'' \<in> set args)
          (selectFiles (subsetSizeOf w args) listing') QUALITY_VALUES ([], []) = (evQ, Inr acc)"
      and ev: "ev = [MakeTempDir, ReadDir d] @ evQ @ post"
      and post: "list_all (\<lambda>e. \<not> isLoopEvent e) post"
    have "listing' = listing" using l assms(3) by simp
    then have a: "convertedAt q evQ = ?sel"
      using qualityLoop_converted [OF distinct_QUALITY_VALUES ql, of q] assms(7) sel by simp
    have "list_all (\<lambda>e. \<forall>q f. e \<noteq> ConvertPNG q f) post"
      using post by (auto simp add: list_all_iff isLoopEvent_def)
    then have "convertedAt q post = []" by (rule convertedAt_not_convert)
    then show ?thesis using ev a by (simp add: convertedAt_simps)
  qed
  then show ?thesis using tr ex by simp
qed


lemma plain_run_exit: "exitCode (script world_plain [''1'', ''/raw''] None) = 0"
  by (simp add: script_eval world_plain_def selectFiles_plain calculateDeltas_scenario)

theorem subset_selection_witness:
  "rawDirOf [''1'', ''/raw''] None = Some ''/raw''
   \<and> parseInt world_plain (nonFlagArgs [''1'', ''/raw''] ! 0) = Some 1
   \<and> 9 / 10 \<in> set QUALITY_VALUES
   \<and> exitCode (script world_plain [''1'', ''/raw''] None) = 0
   \<and> convertedAt (9 / 10) (trace (script world_plain [''1'', ''/raw''] None)) = [''a.ARW'']"
proof -
  have a: "rawDirOf [''1'', ''/raw''] None = Some ''/raw''"
    by (simp add: rawDirOf_def nonFlagArgs_def startsWith_def)
  have b: "''/raw'' \<noteq> []" by simp
  have c: "readdir world_plain ''/raw'' = Some [''a.ARW'', ''notes.txt'', ''b.arw'']"
    by (simp add: world_plain_def)
  have d: "nonFlagArgs [''1'', ''/raw''] \<noteq> []"
    by (simp add: nonFlagArgs_def startsWith_def)
  have e: "parseInt world_plain (nonFlagArgs [''1'', ''/raw''] ! 0) = Some 1"
    by (simp add: nonFlagArgs_def startsWith_def world_plain_def)
  have f: "(0::int) < 1" by simp
  have g: "9 / 10 \<in> set QUALITY_VALUES" by (simp add: QUALITY_VALUES_def)
  note t = subset_selection [OF a b c d e f g, unfolded filter_isArw_plain]
  show ?thesis
    using t a e g plain_run_exit by simp
qed


end
